theory Spec2Isabelle
  imports Main "HOL-Library.Word"
begin

section \<open>Library values used by the dashboard\<close>

text \<open>
  The dashboard uses library facilities whose code is not part of the repository:
  \<^verbatim>\<open>datetime.now\<close>, \<^verbatim>\<open>isoformat\<close>, \<^verbatim>\<open>fromisoformat\<close>, \<^verbatim>\<open>os.getpid\<close> and \<^verbatim>\<open>multiprocessing\<close>. They
  are modelled as far as \<^verbatim>\<open>app.py\<close> uses them. A datetime is naive, as \<^verbatim>\<open>datetime.now()\<close>
  returns it; \<open>valid_datetime\<close> is the range check of Python's constructor.
\<close>

record datetime =
  year :: nat
  month :: nat
  day :: nat
  hour :: nat
  minute :: nat
  second :: nat
  microsecond :: nat

definition is_leap :: "nat \<Rightarrow> bool" where
  "is_leap y = (y mod 4 = 0 \<and> (y mod 100 \<noteq> 0 \<or> y mod 400 = 0))"

definition days_in_month :: "nat \<Rightarrow> nat \<Rightarrow> nat" where
  "days_in_month y m =
     (if m = 2 then (if is_leap y then 29 else 28)
      else if m = 4 \<or> m = 6 \<or> m = 9 \<or> m = 11 then 30 else 31)"

definition valid_datetime :: "datetime \<Rightarrow> bool" where
  "valid_datetime d =
     (1 \<le> year d \<and> year d \<le> 9999 \<and> 1 \<le> month d \<and> month d \<le> 12 \<and>
      1 \<le> day d \<and> day d \<le> days_in_month (year d) (month d) \<and>
      hour d < 24 \<and> minute d < 60 \<and> second d < 60 \<and> microsecond d < 1000000)"

text \<open>
  \<open>zfill w n\<close> is \<^verbatim>\<open>'%0wd' % n\<close> for \<open>n < 10 ^ w\<close>, which holds for every field of a valid
  datetime. \<open>isoformat\<close> writes \<^verbatim>\<open>YYYY-MM-DDTHH:MM:SS\<close>, followed by \<^verbatim>\<open>.ffffff\<close> when the
  microsecond is not 0. \<open>fromisoformat\<close> reads the two layouts \<open>isoformat\<close> writes and
  answers \<open>None\<close> (Python's \<^verbatim>\<open>ValueError\<close>) to every other string; Python accepts further
  layouts, which the worker never writes.
\<close>

definition digit_char :: "nat \<Rightarrow> char" where
  "digit_char n = ''0123456789'' ! n"

definition digit_val :: "char \<Rightarrow> nat option" where
  "digit_val c = map_of (zip ''0123456789'' [0, 1, 2, 3, 4, 5, 6, 7, 8, 9]) c"

fun zfill :: "nat \<Rightarrow> nat \<Rightarrow> string" where
  "zfill 0 n = []"
| "zfill (Suc w) n = zfill w (n div 10) @ [digit_char (n mod 10)]"

fun parse_digits :: "nat \<Rightarrow> string \<Rightarrow> nat option" where
  "parse_digits a [] = Some a"
| "parse_digits a (c # cs) =
     (case digit_val c of None \<Rightarrow> None | Some v \<Rightarrow> parse_digits (10 * a + v) cs)"

definition field :: "string \<Rightarrow> nat \<Rightarrow> nat \<Rightarrow> nat option" where
  "field s i w = parse_digits 0 (take w (drop i s))"

definition isoformat :: "datetime \<Rightarrow> string" where
  "isoformat d =
     zfill 4 (year d) @ ''-'' @ zfill 2 (month d) @ ''-'' @ zfill 2 (day d) @ ''T'' @
     zfill 2 (hour d) @ '':'' @ zfill 2 (minute d) @ '':'' @ zfill 2 (second d) @
     (if microsecond d = 0 then [] else ''.'' @ zfill 6 (microsecond d))"

definition fromisoformat :: "string \<Rightarrow> datetime option" where
  "fromisoformat s =
     (if (length s = 19 \<or> (length s = 26 \<and> s ! 19 = CHR ''.'')) \<and>
         s ! 4 = CHR ''-'' \<and> s ! 7 = CHR ''-'' \<and> s ! 10 = CHR ''T'' \<and>
         s ! 13 = CHR '':'' \<and> s ! 16 = CHR '':''
      then
        (case (field s 0 4, field s 5 2, field s 8 2, field s 11 2, field s 14 2,
               field s 17 2, if length s = 19 then Some 0 else field s 20 6) of
           (Some y, Some mo, Some dd, Some h, Some mi, Some se, Some us) \<Rightarrow>
             (let d = \<lparr>year = y, month = mo, day = dd, hour = h, minute = mi,
                        second = se, microsecond = us\<rparr>
              in if valid_datetime d then Some d else None)
         | _ \<Rightarrow> None)
      else None)"



section \<open>Samples, processes and the session state\<close>

text \<open>
  A sample is the dict built at lines 21-25. Its \<^verbatim>\<open>'timestamp'\<close> holds a \<^verbatim>\<open>str\<close> when the worker
  builds it and a \<^verbatim>\<open>datetime\<close> once the drain has rewritten it (line 123), hence \<open>pyval\<close>.
  \<^verbatim>\<open>'step'\<close> is the Python integer read back from the counter, \<^verbatim>\<open>'pid'\<close> the worker's process
  id.
\<close>

datatype pyval = PyStr string | PyDatetime datetime

record sample =
  timestamp :: pyval
  step :: int
  pid :: nat

text \<open>
  \<open>wpc\<close> is the statement a process executes next: \<open>AtWhile\<close> the loop test of line 14,
  \<open>AtIf\<close> the pause test of line 15, \<open>AtIncrement\<close> lines 17-19 (one step: they run under
  the counter's lock), \<open>AtPut st\<close> lines 21-26 with the local variable \<^verbatim>\<open>step\<close> holding \<open>st\<close>,
  \<open>AtSleep2\<close> line 27, \<open>AtSleepPaused\<close> line 29. \<open>Unstarted\<close> is a \<^verbatim>\<open>Process\<close> object whose
  \<^verbatim>\<open>start()\<close> has not succeeded, \<open>Exited\<close> a process whose loop has ended. \<open>ospid\<close> is what
  \<^verbatim>\<open>os.getpid()\<close> answers inside the process.

  \<open>session\<close> is \<^verbatim>\<open>st.session_state\<close> (lines 36-42) together with every \<^verbatim>\<open>Process\<close> object
  created so far, in creation order; the handle \<open>process\<close> is an index into \<open>procs\<close>. The
  queue is a FIFO list: \<^verbatim>\<open>put\<close> appends, \<^verbatim>\<open>get_nowait\<close> takes the head. The counter is
  \<^verbatim>\<open>mp.Value('i', 0)\<close>, a C \<^verbatim>\<open>int\<close> of 32 bits in shared memory: assigning to it keeps the
  low 32 bits, and reading it gives the signed value.
\<close>

datatype wpc =
  Unstarted | AtWhile | AtIf | AtIncrement | AtPut int | AtSleep2 | AtSleepPaused | Exited

record proc =
  wpc :: wpc
  ospid :: nat

record session =
  data_queue :: "sample list"
  stop_event :: bool
  pause_event :: bool
  counter :: "32 word"
  local_data :: "sample list"
  process :: "nat option"
  running :: bool
  procs :: "proc list"

datatype error = SpawnFailure

definition proc_alive :: "proc \<Rightarrow> bool" where
  "proc_alive p = (wpc p \<noteq> Unstarted \<and> wpc p \<noteq> Exited)"

definition is_alive :: "nat \<Rightarrow> session \<Rightarrow> bool" where
  "is_alive i s = (i < length (procs s) \<and> proc_alive (procs s ! i))"

definition live_count :: "session \<Rightarrow> nat" where
  "live_count s = length (filter proc_alive (procs s))"

definition set_pc :: "nat \<Rightarrow> wpc \<Rightarrow> session \<Rightarrow> session" where
  "set_pc i pc s = s\<lparr>procs := (procs s)[i := (procs s ! i)\<lparr>wpc := pc\<rparr>]\<rparr>"

section \<open>The worker: generate_data\<close>

text \<open>
  One step of process \<open>i\<close>: the statement at its program point, with \<open>now\<close> the clock
  reading should the statement be the one of line 22. The worker only reads the two
  events; it writes the counter, the queue and its own program point.
\<close>

definition generate_data_step :: "datetime \<Rightarrow> nat \<Rightarrow> session \<Rightarrow> session" where
  "generate_data_step now i s =
     (if length (procs s) \<le> i then s
      else case wpc (procs s ! i) of
        Unstarted \<Rightarrow> s
      | Exited \<Rightarrow> s
      | AtWhile \<Rightarrow> if stop_event s then set_pc i Exited s else set_pc i AtIf s
      | AtIf \<Rightarrow> if \<not> pause_event s then set_pc i AtIncrement s else set_pc i AtSleepPaused s
      | AtIncrement \<Rightarrow>
          (let c = counter s + 1 in set_pc i (AtPut (sint c)) (s\<lparr>counter := c\<rparr>))
      | AtPut st \<Rightarrow>
          (let data = \<lparr>timestamp = PyStr (isoformat now), step = st,
                        pid = ospid (procs s ! i)\<rparr>
           in set_pc i AtSleep2 (s\<lparr>data_queue := data_queue s @ [data]\<rparr>))
      | AtSleep2 \<Rightarrow> set_pc i AtWhile s
      | AtSleepPaused \<Rightarrow> set_pc i AtWhile s)"

text \<open>
  \<open>sleep_ms\<close> is the duration of the sleep a program point performs, in milliseconds;
  \<open>generate_data_steps n\<close> runs \<open>n\<close> steps of one process, and \<open>slept_ms n\<close> lists the sleeps
  performed during them. A \<open>tick\<close> names the process that steps and the clock reading.
\<close>

definition sleep_ms :: "wpc \<Rightarrow> nat" where
  "sleep_ms pc = (case pc of AtSleep2 \<Rightarrow> 2000 | AtSleepPaused \<Rightarrow> 100 | _ \<Rightarrow> 0)"

fun generate_data_steps :: "nat \<Rightarrow> datetime \<Rightarrow> nat \<Rightarrow> session \<Rightarrow> session" where
  "generate_data_steps 0 now i s = s"
| "generate_data_steps (Suc n) now i s =
     generate_data_steps n now i (generate_data_step now i s)"

fun slept_ms :: "nat \<Rightarrow> datetime \<Rightarrow> nat \<Rightarrow> session \<Rightarrow> nat list" where
  "slept_ms 0 now i s = []"
| "slept_ms (Suc n) now i s =
     (if is_alive i s \<and> sleep_ms (wpc (procs s ! i)) \<noteq> 0
      then [sleep_ms (wpc (procs s ! i))] else []) @
     slept_ms n now i (generate_data_step now i s)"

type_synonym tick = "nat \<times> datetime"

definition ticks :: "tick list \<Rightarrow> session \<Rightarrow> session" where
  "ticks ts s = fold (\<lambda>(i, now). generate_data_step now i) ts s"

section \<open>The controller: session state and the script main\<close>

text \<open>
  Lines 31-43: the state is created on the first run of the script (\<open>None\<close>) and kept
  afterwards.
\<close>

definition initialize_session_state :: "session option \<Rightarrow> session" where
  "initialize_session_state st =
     (case st of
        None \<Rightarrow> \<lparr>data_queue = [], stop_event = False, pause_event = False, counter = 0,
                  local_data = [], process = None, running = False, procs = []\<rparr>
      | Some s \<Rightarrow> s)"

text \<open>
  Lines 58-75. The Start button is disabled while \<open>running\<close>, and a disabled button is
  never clicked. \<open>spawn\<close> is the operating system's answer to \<^verbatim>\<open>Process.start()\<close>: the new
  process id, or \<open>None\<close> when no process could be created. The \<^verbatim>\<open>Process\<close> object is stored
  in the session (line 65) before it is started; when \<^verbatim>\<open>start()\<close> raises, line 75 is not
  reached and the exception leaves \<^verbatim>\<open>main\<close>.
\<close>

definition start :: "nat option \<Rightarrow> session \<Rightarrow> session \<times> error option" where
  "start spawn s =
     (if running s then (s, None)
      else if (case process s of None \<Rightarrow> True | Some j \<Rightarrow> \<not> is_alive j s) then
        (let s1 = s\<lparr>stop_event := False, pause_event := False\<rparr>;
             i = length (procs s1);
             s2 = s1\<lparr>procs := procs s1 @ [\<lparr>wpc = Unstarted, ospid = 0\<rparr>],
                      process := Some i\<rparr>
         in case spawn of
              None \<Rightarrow> (s2, Some SpawnFailure)
            | Some p \<Rightarrow>
                (s2\<lparr>procs := (procs s2)[i := \<lparr>wpc = AtWhile, ospid = p\<rparr>],
                    running := True\<rparr>, None))
      else (s, None))"

text \<open>
  Lines 78-82; the Pause button is disabled unless \<open>running\<close>.
\<close>

definition pause_toggle :: "session \<Rightarrow> session" where
  "pause_toggle s =
     (if \<not> running s then s
      else if pause_event s then s\<lparr>pause_event := False\<rparr>
      else s\<lparr>pause_event := True\<rparr>)"

text \<open>
  \<^verbatim>\<open>Process.join()\<close> returns once the process is no longer alive; the caller is blocked, so
  only the joined process steps meanwhile. Not returning is \<open>None\<close>.
\<close>

partial_function (option) join :: "datetime \<Rightarrow> nat \<Rightarrow> session \<Rightarrow> session option" where
  "join now i s =
     (if is_alive i s then join now i (generate_data_step now i s) else Some s)"

declare join.simps [code]

text \<open>
  Lines 85-105. \<open>clear_queue\<close> is the loop of lines 101-105. The Clear button is enabled
  when the buffer is not empty or \<open>running\<close> holds. \<open>now\<close> is the clock reading for the
  sample the joined worker may still push.
\<close>

function clear_queue :: "session \<Rightarrow> session" where
  "clear_queue s =
     (if data_queue s = [] then s else clear_queue (s\<lparr>data_queue := tl (data_queue s)\<rparr>))"
  by pat_completeness auto
termination
  by (relation "measure (\<lambda>s. length (data_queue s))") auto

definition clear_enabled :: "session \<Rightarrow> bool" where
  "clear_enabled s = (0 < length (local_data s) \<or> running s)"

definition clear :: "datetime \<Rightarrow> session \<Rightarrow> session option" where
  "clear now s =
     (if \<not> clear_enabled s then Some s
      else
        case (case process s of
                None \<Rightarrow> Some s
              | Some i \<Rightarrow>
                  if is_alive i s then join now i (s\<lparr>stop_event := True\<rparr>) else Some s) of
          None \<Rightarrow> None
        | Some s1 \<Rightarrow>
            Some (clear_queue
              (s1\<lparr>local_data := [], counter := 0, process := None, running := False\<rparr>)))"

text \<open>
  Lines 118-126. \<open>drain_pop\<close> is the body of the loop; whatever it raises is swallowed by
  \<^verbatim>\<open>except: pass\<close>: an empty queue changes nothing, a timestamp that does not parse (or is
  not a string) leaves the sample popped and not appended. \<open>drain_loop\<close> is the loop with
  the worker running beside it: \<open>sched\<close> gives, for each test of \<^verbatim>\<open>queue.empty()\<close>, the
  worker steps that happen before it, and no worker step happens during the drain after
  the schedule is used up. The worker pushes at the tail of the queue, so a step between
  the test and the pop has the effect of the same step before the test.
\<close>

definition drain_pop :: "session \<Rightarrow> session" where
  "drain_pop s =
     (case data_queue s of
        [] \<Rightarrow> s
      | new_data # q \<Rightarrow>
          (let s1 = s\<lparr>data_queue := q\<rparr> in
           case timestamp new_data of
             PyStr text \<Rightarrow>
               (case fromisoformat text of
                  None \<Rightarrow> s1
                | Some d \<Rightarrow>
                    s1\<lparr>local_data := local_data s1 @ [new_data\<lparr>timestamp := PyDatetime d\<rparr>]\<rparr>)
           | PyDatetime _ \<Rightarrow> s1))"

function drain_loop :: "tick list list \<Rightarrow> session \<Rightarrow> session" where
  "drain_loop sched s =
     (let s1 = ticks (case sched of [] \<Rightarrow> [] | b # _ \<Rightarrow> b) s
      in if data_queue s1 = [] then s1 else drain_loop (tl sched) (drain_pop s1))"
  by pat_completeness auto
termination
proof (relation "measures [\<lambda>(sched, s). length sched, \<lambda>(sched, s). length (data_queue s)]")
  fix sched :: "tick list list" and s s1 :: session
  assume a: "s1 = ticks (case sched of [] \<Rightarrow> [] | b # _ \<Rightarrow> b) s" "data_queue s1 \<noteq> []"
  show "((tl sched, drain_pop s1), (sched, s))
        \<in> measures [\<lambda>(sched, s). length sched, \<lambda>(sched, s). length (data_queue s)]"
  proof (cases sched)
    case Nil
    with a have "s1 = s" by (simp add: ticks_def)
    with a Nil show ?thesis
      by (cases "data_queue s")
        (auto simp: drain_pop_def Let_def split: pyval.splits option.splits)
  next
    case (Cons b bs)
    then show ?thesis by simp
  qed
qed simp

definition drain_into_buffer :: "tick list list \<Rightarrow> session \<Rightarrow> session" where
  "drain_into_buffer sched s = (if running s then drain_loop sched s else s)"

text \<open>
  Lines 45-146: one run of the script is the handler of the button that was clicked, if
  any, and then the drain. The rest of \<^verbatim>\<open>main\<close> renders the download button, the table and
  the status line and changes no state. An exception raised by \<open>start\<close> ends the run before
  the drain. A session then evolves by worker steps and script runs.
\<close>

datatype click = NoClick | ClickStart "nat option" | ClickPause | ClickClear datetime

definition main ::
  "click \<Rightarrow> tick list list \<Rightarrow> session \<Rightarrow> (session \<times> error option) option" where
  "main c sched s =
     (case c of
        NoClick \<Rightarrow> Some (drain_into_buffer sched s, None)
      | ClickStart spawn \<Rightarrow>
          (case start spawn s of
             (s1, Some e) \<Rightarrow> Some (s1, Some e)
           | (s1, None) \<Rightarrow> Some (drain_into_buffer sched s1, None))
      | ClickPause \<Rightarrow> Some (drain_into_buffer sched (pause_toggle s), None)
      | ClickClear now \<Rightarrow>
          (case clear now s of
             None \<Rightarrow> None
           | Some s1 \<Rightarrow> Some (drain_into_buffer sched s1, None)))"

datatype event = Tick nat datetime | Script click "tick list list"

definition exec :: "event \<Rightarrow> session \<Rightarrow> session option" where
  "exec e s =
     (case e of
        Tick i now \<Rightarrow> Some (generate_data_step now i s)
      | Script c sched \<Rightarrow> map_option fst (main c sched s))"

fun run :: "event list \<Rightarrow> session \<Rightarrow> session option" where
  "run [] s = Some s"
| "run (e # es) s = (case exec e s of None \<Rightarrow> None | Some s1 \<Rightarrow> run es s1)"

section \<open>Notions used to state the properties\<close>

text \<open>
  \<open>rank\<close> bounds the steps a worker still takes once the stop event is set. \<open>parsed\<close> is
  what one iteration of the drain appends for the sample it pops; \<open>payload\<close> is what a
  sample says: the instant its timestamp denotes, its step and its producer. \<open>drain_all\<close>
  moves the whole queue to the buffer at once. \<open>inflight\<close> is the step a worker has read
  from the counter and not pushed yet, \<open>all_steps\<close> the steps given out so far in a run,
  \<open>wrapped k\<close> the value a 32-bit C integer holds after \<open>k\<close> increments from 0.
  \<open>handle_inv\<close> and \<open>data_inv\<close> are the invariants of the session; \<open>event_ok\<close> says that the
  clock readings of an event are valid datetimes.
\<close>

definition rank :: "wpc \<Rightarrow> nat" where
  "rank pc =
     (case pc of
        Unstarted \<Rightarrow> 0 | Exited \<Rightarrow> 0 | AtWhile \<Rightarrow> 1 | AtSleep2 \<Rightarrow> 2 | AtSleepPaused \<Rightarrow> 2
      | AtPut _ \<Rightarrow> 3 | AtIncrement \<Rightarrow> 4 | AtIf \<Rightarrow> 5)"

definition parsed :: "sample \<Rightarrow> sample option" where
  "parsed x =
     (case timestamp x of
        PyStr text \<Rightarrow>
          (case fromisoformat text of
             None \<Rightarrow> None
           | Some d \<Rightarrow> Some (x\<lparr>timestamp := PyDatetime d\<rparr>))
      | PyDatetime _ \<Rightarrow> None)"

definition parsable :: "sample \<Rightarrow> bool" where
  "parsable x = (parsed x \<noteq> None)"

definition instant :: "sample \<Rightarrow> datetime option" where
  "instant x = (case timestamp x of PyStr text \<Rightarrow> fromisoformat text | PyDatetime d \<Rightarrow> Some d)"

definition payload :: "sample \<Rightarrow> datetime option \<times> int \<times> nat" where
  "payload x = (instant x, step x, pid x)"

definition drain_all :: "session \<Rightarrow> session" where
  "drain_all s =
     s\<lparr>data_queue := [], local_data := local_data s @ List.map_filter parsed (data_queue s)\<rparr>"

definition inflight :: "session \<Rightarrow> int list" where
  "inflight s =
     (case process s of
        None \<Rightarrow> []
      | Some j \<Rightarrow>
          if j < length (procs s)
          then (case wpc (procs s ! j) of AtPut st \<Rightarrow> [st] | _ \<Rightarrow> [])
          else [])"

definition all_steps :: "session \<Rightarrow> int list" where
  "all_steps s = map step (local_data s) @ map step (data_queue s) @ inflight s"

definition wrapped :: "nat \<Rightarrow> int" where
  "wrapped k = sint (word_of_nat k :: 32 word)"

definition handle_alive :: "session \<Rightarrow> bool" where
  "handle_alive s = (case process s of None \<Rightarrow> False | Some j \<Rightarrow> is_alive j s)"

definition handle_inv :: "session \<Rightarrow> bool" where
  "handle_inv s =
     ((\<forall>j. is_alive j s \<longrightarrow> process s = Some j) \<and>
      running s = handle_alive s \<and> (running s \<longrightarrow> \<not> stop_event s))"

definition data_inv :: "session \<Rightarrow> bool" where
  "data_inv s =
     (list_all parsable (data_queue s) \<and>
      all_steps s = map wrapped [1..<Suc (length (all_steps s))] \<and>
      counter s = word_of_nat (length (all_steps s)))"

definition tick_ok :: "tick \<Rightarrow> bool" where
  "tick_ok t = valid_datetime (snd t)"

definition event_ok :: "event \<Rightarrow> bool" where
  "event_ok e =
     (case e of
        Tick i now \<Rightarrow> valid_datetime now
      | Script c sched \<Rightarrow>
          (case c of ClickClear now \<Rightarrow> valid_datetime now | _ \<Rightarrow> True) \<and>
          list_all (list_all tick_ok) sched)"

definition at_loop_head :: "session \<Rightarrow> bool" where
  "at_loop_head s =
     (process s = Some 0 \<and> 0 < length (procs s) \<and> wpc (procs s ! 0) = AtWhile \<and>
      \<not> stop_event s \<and> \<not> pause_event s \<and> running s \<and> data_queue s = [])"

section \<open>Example inputs\<close>

definition demo_clock :: datetime where
  "demo_clock =
     \<lparr>year = 2024, month = 1, day = 2, hour = 3, minute = 4, second = 5, microsecond = 678\<rparr>"

definition demo_running :: session where
  "demo_running =
     \<lparr>data_queue = [\<lparr>timestamp = PyStr ''2024-01-02T03:04:05.000678'', step = 1, pid = 100\<rparr>],
      stop_event = False, pause_event = False, counter = 1, local_data = [],
      process = Some 0, running = True, procs = [\<lparr>wpc = AtSleep2, ospid = 100\<rparr>]\<rparr>"

definition demo_stopping :: session where
  "demo_stopping =
     \<lparr>data_queue = [], stop_event = True, pause_event = False, counter = 0, local_data = [],
      process = Some 0, running = True, procs = [\<lparr>wpc = AtIf, ospid = 100\<rparr>]\<rparr>"

definition demo_pause_race :: session where
  "demo_pause_race =
     \<lparr>data_queue = [], stop_event = False, pause_event = True, counter = 0, local_data = [],
      process = Some 0, running = True, procs = [\<lparr>wpc = AtIncrement, ospid = 100\<rparr>]\<rparr>"

definition demo_paused :: session where
  "demo_paused =
     \<lparr>data_queue = [], stop_event = False, pause_event = True, counter = 0, local_data = [],
      process = Some 0, running = True, procs = [\<lparr>wpc = AtIf, ospid = 100\<rparr>]\<rparr>"

definition emission_cycle :: "event list" where
  "emission_cycle =
     [Tick 0 demo_clock, Tick 0 demo_clock, Tick 0 demo_clock, Tick 0 demo_clock,
      Tick 0 demo_clock, Script NoClick []]"

definition long_run :: "nat \<Rightarrow> event list" where
  "long_run n = Script (ClickStart (Some 100)) [] # concat (replicate n emission_cycle)"

section \<open>Lemmas\<close>

lemma length_zfill: "length (zfill w n) = w"
  by (induction w arbitrary: n) auto

lemma digit_val_digit_char: "n < 10 \<Longrightarrow> digit_val (digit_char n) = Some n"
proof -
  assume "n < 10"
  then consider "n = 0" | "n = 1" | "n = 2" | "n = 3" | "n = 4" | "n = 5" | "n = 6"
    | "n = 7" | "n = 8" | "n = 9" by atomize_elim arith
  then show ?thesis
    by cases (simp_all add: digit_val_def digit_char_def)
qed

lemma parse_digits_append:
  "parse_digits a (xs @ ys) =
     (case parse_digits a xs of None \<Rightarrow> None | Some b \<Rightarrow> parse_digits b ys)"
  by (induction xs arbitrary: a) (auto split: option.splits)

lemma parse_digits_zfill: "n < 10 ^ w \<Longrightarrow> parse_digits a (zfill w n) = Some (a * 10 ^ w + n)"
proof (induction w arbitrary: n)
  case 0
  then show ?case by simp
next
  case (Suc w)
  have "n div 10 < 10 ^ w" using Suc.prems by (simp add: less_mult_imp_div_less)
  then have "parse_digits a (zfill w (n div 10)) = Some (a * 10 ^ w + n div 10)"
    by (rule Suc.IH)
  then show ?case
    by (simp add: parse_digits_append digit_val_digit_char algebra_simps)
qed


lemma field_at:
  "length pre = i \<Longrightarrow> n < 10 ^ w \<Longrightarrow> field (pre @ zfill w n @ post) i w = Some n"
  by (simp add: field_def length_zfill parse_digits_zfill)

lemma isoformat_fields:
  assumes "valid_datetime d"
  shows "field (isoformat d) 0 4 = Some (year d)"
    and "field (isoformat d) 5 2 = Some (month d)"
    and "field (isoformat d) 8 2 = Some (day d)"
    and "field (isoformat d) 11 2 = Some (hour d)"
    and "field (isoformat d) 14 2 = Some (minute d)"
    and "field (isoformat d) 17 2 = Some (second d)"
    and "microsecond d \<noteq> 0 \<Longrightarrow> field (isoformat d) 20 6 = Some (microsecond d)"
proof -
  have b: "year d < 10 ^ 4" "month d < 10 ^ 2" "day d < 10 ^ 2" "hour d < 10 ^ 2"
    "minute d < 10 ^ 2" "second d < 10 ^ 2" "microsecond d < 10 ^ 6"
    using assms by (auto simp: valid_datetime_def days_in_month_def split: if_splits)
  show "field (isoformat d) 0 4 = Some (year d)"
    using b by (simp add: field_def isoformat_def length_zfill parse_digits_zfill)
  show "field (isoformat d) 5 2 = Some (month d)"
    using b by (simp add: field_def isoformat_def length_zfill parse_digits_zfill)
  show "field (isoformat d) 8 2 = Some (day d)"
    using b by (simp add: field_def isoformat_def length_zfill parse_digits_zfill)
  show "field (isoformat d) 11 2 = Some (hour d)"
    using b by (simp add: field_def isoformat_def length_zfill parse_digits_zfill)
  show "field (isoformat d) 14 2 = Some (minute d)"
    using b by (simp add: field_def isoformat_def length_zfill parse_digits_zfill)
  show "field (isoformat d) 17 2 = Some (second d)"
    using b by (simp add: field_def isoformat_def length_zfill parse_digits_zfill)
  show "microsecond d \<noteq> 0 \<Longrightarrow> field (isoformat d) 20 6 = Some (microsecond d)"
    using b by (simp add: field_def isoformat_def length_zfill parse_digits_zfill)
qed

lemma isoformat_shape:
  "length (isoformat d) = (if microsecond d = 0 then 19 else 26)"
  "isoformat d ! 4 = CHR ''-''" "isoformat d ! 7 = CHR ''-''" "isoformat d ! 10 = CHR ''T''"
  "isoformat d ! 13 = CHR '':''" "isoformat d ! 16 = CHR '':''"
  "microsecond d \<noteq> 0 \<Longrightarrow> isoformat d ! 19 = CHR ''.''"
  by (simp_all add: isoformat_def length_zfill nth_append)

lemma fromisoformat_isoformat:
  assumes "valid_datetime d"
  shows "fromisoformat (isoformat d) = Some d"
proof (cases "microsecond d = 0")
  case True
  then have e: "\<lparr>year = year d, month = month d, day = day d, hour = hour d,
      minute = minute d, second = second d, microsecond = 0\<rparr> = d"
    by (intro datetime.equality) simp_all
  from True assms show ?thesis
    by (simp add: fromisoformat_def isoformat_shape isoformat_fields Let_def e)
next
  case False
  have e: "\<lparr>year = year d, month = month d, day = day d, hour = hour d,
      minute = minute d, second = second d, microsecond = microsecond d\<rparr> = d"
    by simp
  from False assms show ?thesis
    by (simp add: fromisoformat_def isoformat_shape isoformat_fields Let_def e)
qed

lemma set_pc_simps [simp]:
  "data_queue (set_pc i pc s) = data_queue s"
  "stop_event (set_pc i pc s) = stop_event s"
  "pause_event (set_pc i pc s) = pause_event s"
  "counter (set_pc i pc s) = counter s"
  "local_data (set_pc i pc s) = local_data s"
  "process (set_pc i pc s) = process s"
  "running (set_pc i pc s) = running s"
  "procs (set_pc i pc s) = (procs s)[i := (procs s ! i)\<lparr>wpc := pc\<rparr>]"
  by (simp_all add: set_pc_def)

lemma step_frame [simp]:
  "stop_event (generate_data_step now i s) = stop_event s"
  "pause_event (generate_data_step now i s) = pause_event s"
  "local_data (generate_data_step now i s) = local_data s"
  "process (generate_data_step now i s) = process s"
  "running (generate_data_step now i s) = running s"
  "length (procs (generate_data_step now i s)) = length (procs s)"
  by (simp_all add: generate_data_step_def Let_def split: wpc.splits)

lemma step_other_proc:
  "j \<noteq> i \<Longrightarrow> procs (generate_data_step now i s) ! j = procs s ! j"
  by (simp add: generate_data_step_def Let_def split: wpc.splits)

lemma step_not_alive: "\<not> is_alive i s \<Longrightarrow> generate_data_step now i s = s"
  by (auto simp: generate_data_step_def is_alive_def proc_alive_def split: wpc.splits)

lemma step_ospid:
  "ospid (procs (generate_data_step now i s) ! j) = ospid (procs s ! j)"
  by (cases "j = i") (auto simp: generate_data_step_def Let_def split: wpc.splits)

lemma step_alive_mono: "is_alive j (generate_data_step now i s) \<Longrightarrow> is_alive j s"
  by (cases "j = i")
    (auto simp: is_alive_def proc_alive_def generate_data_step_def Let_def
      split: wpc.splits if_splits)

lemma step_stays_alive:
  "\<not> stop_event s \<Longrightarrow> is_alive j s \<Longrightarrow> is_alive j (generate_data_step now i s)"
  by (cases "j = i")
    (auto simp: is_alive_def proc_alive_def generate_data_step_def Let_def
      split: wpc.splits if_splits)

lemma step_rank:
  "is_alive i s \<Longrightarrow> stop_event s \<Longrightarrow>
   rank (wpc (procs (generate_data_step now i s) ! i)) < rank (wpc (procs s ! i))"
  by (auto simp: is_alive_def proc_alive_def generate_data_step_def Let_def rank_def
      split: wpc.splits if_splits)

lemma rank_le: "rank pc \<le> 5"
  by (simp add: rank_def split: wpc.splits)

lemma join_stop:
  "stop_event s \<Longrightarrow>
   \<exists>n \<le> rank (wpc (procs s ! i)).
     join now i s = Some (generate_data_steps n now i s) \<and>
     \<not> is_alive i (generate_data_steps n now i s)"
proof (induction "rank (wpc (procs s ! i))" arbitrary: s rule: less_induct)
  case less
  show ?case
  proof (cases "is_alive i s")
    case False
    then have "join now i s = Some (generate_data_steps 0 now i s)"
      by (subst join.simps) simp
    with False show ?thesis by (intro exI[of _ 0]) simp
  next
    case True
    let ?s = "generate_data_step now i s"
    have r: "rank (wpc (procs ?s ! i)) < rank (wpc (procs s ! i))"
      using True less.prems by (rule step_rank)
    have "stop_event ?s" using less.prems by simp
    from less.hyps[OF r this] obtain n where n: "n \<le> rank (wpc (procs ?s ! i))"
      "join now i ?s = Some (generate_data_steps n now i ?s)"
      "\<not> is_alive i (generate_data_steps n now i ?s)" by blast
    have "join now i s = join now i ?s" using True by (subst join.simps) simp
    with n r show ?thesis by (intro exI[of _ "Suc n"]) simp
  qed
qed

lemma handle_inv_step: "handle_inv s \<Longrightarrow> handle_inv (generate_data_step now i s)"
  unfolding handle_inv_def handle_alive_def
  by (auto dest: step_alive_mono intro: step_stays_alive split: option.splits)

lemma ticks_Nil [simp]: "ticks [] s = s"
  by (simp add: ticks_def)

lemma ticks_Cons [simp]: "ticks (t # ts) s = ticks ts (generate_data_step (snd t) (fst t) s)"
  by (simp add: ticks_def split: prod.splits)

lemma ticks_append [simp]: "ticks (ts @ us) s = ticks us (ticks ts s)"
  by (simp add: ticks_def)

lemma handle_inv_ticks: "handle_inv s \<Longrightarrow> handle_inv (ticks ts s)"
  by (induction ts arbitrary: s) (auto intro: handle_inv_step)

lemma is_alive_procs: "procs s' = procs s \<Longrightarrow> is_alive j s' = is_alive j s"
  by (simp add: is_alive_def)

lemma handle_inv_cong:
  "procs s' = procs s \<Longrightarrow> process s' = process s \<Longrightarrow> running s' = running s \<Longrightarrow>
   stop_event s' = stop_event s \<Longrightarrow> handle_inv s' = handle_inv s"
  by (simp add: handle_inv_def handle_alive_def is_alive_def split: option.splits)

lemma handle_inv_pause_toggle: "handle_inv s \<Longrightarrow> handle_inv (pause_toggle s)"
  by (rule iffD2[OF handle_inv_cong]) (simp_all add: pause_toggle_def)

lemma handle_inv_start: "handle_inv s \<Longrightarrow> handle_inv (fst (start spawn s))"
  unfolding handle_inv_def handle_alive_def start_def Let_def is_alive_def proc_alive_def
  by (auto simp: nth_append split: option.splits)

declare drain_loop.simps [simp del] clear_queue.simps [simp del]

lemma clear_queue_eq: "clear_queue s = s\<lparr>data_queue := []\<rparr>"
proof (induction s rule: clear_queue.induct)
  case (1 s)
  show ?case
  proof (cases "data_queue s = []")
    case True
    then show ?thesis by (subst clear_queue.simps) simp
  next
    case False
    with 1 show ?thesis by (subst clear_queue.simps) simp
  qed
qed

lemma drain_pop_Cons:
  "data_queue s = x # q \<Longrightarrow>
   drain_pop s =
     s\<lparr>data_queue := q,
       local_data := local_data s @ (case parsed x of None \<Rightarrow> [] | Some y \<Rightarrow> [y])\<rparr>"
  by (simp add: drain_pop_def parsed_def Let_def split: pyval.splits option.splits)

lemma drain_all_pop: "data_queue s \<noteq> [] \<Longrightarrow> drain_all (drain_pop s) = drain_all s"
  by (cases "data_queue s")
    (simp_all add: drain_pop_Cons drain_all_def List.map_filter_simps split: option.splits)

lemma drain_all_empty: "data_queue s = [] \<Longrightarrow> drain_all s = s"
  by (simp add: drain_all_def List.map_filter_simps)

lemma step_queue_grows: "\<exists>new. data_queue (generate_data_step now i s) = data_queue s @ new"
  by (simp add: generate_data_step_def Let_def split: wpc.splits)

lemma step_queue_nonempty:
  "data_queue s \<noteq> [] \<Longrightarrow> data_queue (generate_data_step now i s) \<noteq> []"
  using step_queue_grows[of now i s] by auto

lemma ticks_queue_nonempty: "data_queue s \<noteq> [] \<Longrightarrow> data_queue (ticks ts s) \<noteq> []"
proof (induction ts arbitrary: s)
  case Nil
  then show ?case by simp
next
  case (Cons t ts)
  from Cons.prems have "data_queue (generate_data_step (snd t) (fst t) s) \<noteq> []"
    by (rule step_queue_nonempty)
  then show ?case by (simp add: Cons.IH)
qed

lemma step_drain_pop:
  "data_queue s \<noteq> [] \<Longrightarrow>
   generate_data_step now i (drain_pop s) = drain_pop (generate_data_step now i s)"
  by (cases "data_queue s")
    (auto simp: drain_pop_Cons generate_data_step_def Let_def set_pc_def split: wpc.splits)

lemma ticks_drain_pop:
  "data_queue s \<noteq> [] \<Longrightarrow> ticks ts (drain_pop s) = drain_pop (ticks ts s)"
  by (induction ts arbitrary: s) (auto simp: step_drain_pop step_queue_nonempty)

lemma drain_loop_linear:
  "\<exists>k \<le> length sched. drain_loop sched s = drain_all (ticks (concat (take k sched)) s)"
proof (induction sched s rule: drain_loop.induct)
  case (1 sched s)
  define b where "b = (case sched of [] \<Rightarrow> [] | b # _ \<Rightarrow> b)"
  define s1 where "s1 = ticks b s"
  have b: "b = concat (take 1 sched)" "1 \<le> length sched \<or> sched = []"
    by (cases sched; simp add: b_def)+
  show ?case
  proof (cases "data_queue s1 = []")
    case True
    then have "drain_loop sched s = drain_all (ticks b s)"
      by (subst drain_loop.simps) (simp add: b_def s1_def drain_all_empty)
    then show ?thesis
      by (cases sched) (auto simp: b_def intro: exI[of _ 0] exI[of _ 1])
  next
    case False
    from "1.IH"[OF s1_def[unfolded b_def] False] obtain k where
      k: "k \<le> length (tl sched)"
      "drain_loop (tl sched) (drain_pop s1) =
         drain_all (ticks (concat (take k (tl sched))) (drain_pop s1))" by blast
    have "drain_loop sched s = drain_loop (tl sched) (drain_pop s1)"
      using False by (subst drain_loop.simps) (simp add: b_def s1_def)
    also have "\<dots> = drain_all (ticks (concat (take k (tl sched))) s1)"
      using False by (simp add: k ticks_drain_pop drain_all_pop ticks_queue_nonempty)
    also have "\<dots> = drain_all (ticks (concat (take (Suc k) sched)) s)"
      by (cases sched) (simp_all add: s1_def b_def)
    finally show ?thesis
      using k(1) by (cases sched) (auto intro: exI[of _ 0] exI[of _ "Suc k"])
  qed
qed

lemma steps_frame [simp]:
  "stop_event (generate_data_steps n now i s) = stop_event s"
  "pause_event (generate_data_steps n now i s) = pause_event s"
  "local_data (generate_data_steps n now i s) = local_data s"
  "process (generate_data_steps n now i s) = process s"
  "running (generate_data_steps n now i s) = running s"
  "length (procs (generate_data_steps n now i s)) = length (procs s)"
  by (induction n arbitrary: s) simp_all

lemma steps_alive_mono: "is_alive j (generate_data_steps n now i s) \<Longrightarrow> is_alive j s"
  by (induction n arbitrary: s) (auto dest: step_alive_mono)

lemma step_other_alive:
  "j \<noteq> i \<Longrightarrow> is_alive j (generate_data_step now i s) = is_alive j s"
  by (simp add: is_alive_def step_other_proc)

lemma steps_other_alive:
  "j \<noteq> i \<Longrightarrow> is_alive j (generate_data_steps n now i s) = is_alive j s"
  by (induction n arbitrary: s) (simp_all add: step_other_alive)

lemma clear_disabled: "\<not> clear_enabled s \<Longrightarrow> clear now s = Some s"
  by (simp add: clear_def)

lemma clear_result:
  assumes "clear_enabled s"
  shows "\<exists>s1. clear now s =
            Some (s1\<lparr>local_data := [], counter := 0, process := None, running := False,
                     data_queue := []\<rparr>) \<and>
          (\<forall>j. is_alive j s1 \<longrightarrow> is_alive j s \<and> process s \<noteq> Some j)"
proof (cases "handle_alive s")
  case False
  then have "clear now s =
      Some (s\<lparr>local_data := [], counter := 0, process := None, running := False,
               data_queue := []\<rparr>)"
    using assms by (auto simp: clear_def handle_alive_def clear_queue_eq split: option.splits)
  moreover have "\<forall>j. is_alive j s \<longrightarrow> is_alive j s \<and> process s \<noteq> Some j"
    using False by (auto simp: handle_alive_def)
  ultimately show ?thesis by blast
next
  case True
  then obtain i where i: "process s = Some i" "is_alive i s"
    by (auto simp: handle_alive_def split: option.splits)
  let ?s = "s\<lparr>stop_event := True\<rparr>"
  have "stop_event ?s" by simp
  from join_stop[OF this, of i now] obtain n where
    n: "join now i ?s = Some (generate_data_steps n now i ?s)"
       "\<not> is_alive i (generate_data_steps n now i ?s)" by blast
  let ?s1 = "generate_data_steps n now i ?s"
  have "clear now s =
      Some (?s1\<lparr>local_data := [], counter := 0, process := None, running := False,
               data_queue := []\<rparr>)"
    using assms i n by (simp add: clear_def clear_queue_eq)
  moreover have "\<forall>j. is_alive j ?s1 \<longrightarrow> is_alive j s \<and> process s \<noteq> Some j"
  proof (intro allI impI)
    fix j assume a: "is_alive j ?s1"
    with n(2) have "j \<noteq> i" by auto
    moreover from a have "is_alive j ?s" by (rule steps_alive_mono)
    ultimately show "is_alive j s \<and> process s \<noteq> Some j"
      using i by (simp add: is_alive_def)
  qed
  ultimately show ?thesis by blast
qed

lemma handle_inv_clear:
  assumes "handle_inv s"
  shows "\<exists>s'. clear now s = Some s' \<and> handle_inv s'"
proof (cases "clear_enabled s")
  case False
  with assms show ?thesis by (simp add: clear_disabled)
next
  case True
  from clear_result[OF True, of now] obtain s1 where
    s1: "clear now s =
            Some (s1\<lparr>local_data := [], counter := 0, process := None, running := False,
                     data_queue := []\<rparr>)"
        "\<forall>j. is_alive j s1 \<longrightarrow> is_alive j s \<and> process s \<noteq> Some j" by blast
  have "\<forall>j. \<not> is_alive j s1"
    using s1(2) assms by (auto simp: handle_inv_def)
  then have "handle_inv (s1\<lparr>local_data := [], counter := 0, process := None,
      running := False, data_queue := []\<rparr>)"
    by (simp add: handle_inv_def handle_alive_def is_alive_def)
  with s1(1) show ?thesis by blast
qed

lemma handle_inv_drain_all: "handle_inv s \<Longrightarrow> handle_inv (drain_all s)"
  by (rule iffD2[OF handle_inv_cong]) (simp_all add: drain_all_def)

lemma handle_inv_drain:
  assumes "handle_inv s"
  shows "handle_inv (drain_into_buffer sched s)"
proof -
  from drain_loop_linear[of sched s] obtain k where
    k: "drain_loop sched s = drain_all (ticks (concat (take k sched)) s)" by blast
  have "handle_inv (drain_all (ticks (concat (take k sched)) s))"
    using assms by (intro handle_inv_drain_all handle_inv_ticks)
  with k assms show ?thesis by (simp add: drain_into_buffer_def)
qed

lemma handle_inv_exec:
  assumes "handle_inv s"
  shows "\<exists>s'. exec e s = Some s' \<and> handle_inv s'"
proof (cases e)
  case (Tick i now)
  with assms show ?thesis by (simp add: exec_def handle_inv_step)
next
  case (Script c sched)
  show ?thesis
  proof (cases c)
    case NoClick
    with Script assms show ?thesis by (simp add: exec_def main_def handle_inv_drain)
  next
    case (ClickStart spawn)
    have "handle_inv (fst (start spawn s))" using assms by (rule handle_inv_start)
    with Script ClickStart show ?thesis
      by (cases "start spawn s")
        (auto simp: exec_def main_def handle_inv_drain split: option.splits)
  next
    case ClickPause
    with Script assms show ?thesis
      by (simp add: exec_def main_def handle_inv_drain handle_inv_pause_toggle)
  next
    case (ClickClear now)
    from handle_inv_clear[OF assms, of now] obtain s' where
      "clear now s = Some s'" "handle_inv s'" by blast
    with Script ClickClear show ?thesis
      by (simp add: exec_def main_def handle_inv_drain)
  qed
qed

lemma handle_inv_init: "handle_inv (initialize_session_state None)"
  by (simp add: initialize_session_state_def handle_inv_def handle_alive_def is_alive_def)

lemma handle_inv_run:
  "handle_inv s \<Longrightarrow> \<exists>s'. run evs s = Some s' \<and> handle_inv s'"
proof (induction evs arbitrary: s)
  case Nil
  then show ?case by simp
next
  case (Cons e evs)
  from handle_inv_exec[OF Cons.prems, of e] obtain s1 where
    s1: "exec e s = Some s1" "handle_inv s1" by blast
  from Cons.IH[OF s1(2)] s1(1) show ?case by simp
qed

lemma live_count_le:
  assumes "\<forall>j. is_alive j s \<longrightarrow> process s = Some j"
  shows "live_count s \<le> 1"
proof -
  have "{i. i < length (procs s) \<and> proc_alive (procs s ! i)} \<subseteq> {i. process s = Some i}"
    using assms by (auto simp: is_alive_def)
  also have "\<dots> \<subseteq> (case process s of None \<Rightarrow> {} | Some i \<Rightarrow> {i})"
    by (auto split: option.splits)
  finally have "card {i. i < length (procs s) \<and> proc_alive (procs s ! i)}
      \<le> card (case process s of None \<Rightarrow> {} | Some i \<Rightarrow> {i})"
    by (intro card_mono) (auto split: option.splits)
  also have "\<dots> \<le> 1" by (simp split: option.splits)
  finally show ?thesis by (simp add: live_count_def length_filter_conv_card)
qed

lemma slept_bound:
  "stop_event s \<Longrightarrow>
   length (slept_ms n now i s) \<le> (if rank (wpc (procs s ! i)) \<le> 1 then 0 else 1)"
proof (induction n arbitrary: s)
  case 0
  then show ?case by simp
next
  case (Suc n)
  let ?s = "generate_data_step now i s"
  have ih: "length (slept_ms n now i ?s) \<le> (if rank (wpc (procs ?s ! i)) \<le> 1 then 0 else 1)"
    using Suc.prems by (intro Suc.IH) simp
  show ?case
  proof (cases "is_alive i s")
    case False
    then have "?s = s" by (rule step_not_alive)
    with ih False show ?thesis by simp
  next
    case True
    then have "i < length (procs s)" by (simp add: is_alive_def)
    with ih Suc.prems show ?thesis
      by (cases "wpc (procs s ! i)")
        (auto simp: generate_data_step_def Let_def rank_def sleep_ms_def split: if_splits)
  qed
qed

lemma steps_not_alive: "\<not> is_alive i s \<Longrightarrow> generate_data_steps m now i s = s"
  by (induction m) (simp_all add: step_not_alive)

lemma no_live_procs:
  assumes "\<forall>j. \<not> is_alive j s"
  shows "filter proc_alive (procs s) = []"
proof -
  have "\<forall>p \<in> set (procs s). \<not> proc_alive p"
    using assms by (auto simp: is_alive_def in_set_conv_nth)
  then show ?thesis by (simp add: filter_empty_conv)
qed

lemma drain_loop_Nil_empty: "data_queue s = [] \<Longrightarrow> drain_loop [] s = s"
  by (subst drain_loop.simps) simp

lemma valid_demo_clock: "valid_datetime demo_clock"
  by (simp add: valid_datetime_def demo_clock_def days_in_month_def)

lemma parsed_payload: "parsed x = Some y \<Longrightarrow> payload y = payload x"
  by (auto simp: parsed_def payload_def instant_def split: pyval.splits option.splits)

lemma map_filter_parsable:
  "list_all parsable q \<Longrightarrow> map payload (List.map_filter parsed q) = map payload q"
  by (induction q) (auto simp: List.map_filter_simps parsable_def parsed_payload)

lemma length_map_filter_parsable:
  "list_all parsable q \<Longrightarrow> length (List.map_filter parsed q) = length q"
  using map_filter_parsable[of q] by (metis length_map)

lemma step_queue_cases:
  "data_queue (generate_data_step now i s) = data_queue s \<or>
   (\<exists>st. i < length (procs s) \<and> wpc (procs s ! i) = AtPut st \<and>
      data_queue (generate_data_step now i s) =
        data_queue s @
          [\<lparr>timestamp = PyStr (isoformat now), step = st, pid = ospid (procs s ! i)\<rparr>])"
  by (simp add: generate_data_step_def Let_def split: wpc.splits)

lemma parsable_fresh:
  "valid_datetime now \<Longrightarrow> parsable \<lparr>timestamp = PyStr (isoformat now), step = st, pid = p\<rparr>"
  by (simp add: parsable_def parsed_def fromisoformat_isoformat)

lemma step_parsable:
  assumes "list_all parsable (data_queue s)" and "valid_datetime now"
  shows "list_all parsable (data_queue (generate_data_step now i s))"
  using step_queue_cases[of now i s] assms by (auto simp: parsable_fresh)

lemma ticks_parsable:
  "list_all parsable (data_queue s) \<Longrightarrow> list_all tick_ok ts \<Longrightarrow>
   list_all parsable (data_queue (ticks ts s))"
  by (induction ts arbitrary: s) (auto simp: tick_ok_def step_parsable)

lemma ticks_frame [simp]:
  "stop_event (ticks ts s) = stop_event s"
  "pause_event (ticks ts s) = pause_event s"
  "local_data (ticks ts s) = local_data s"
  "process (ticks ts s) = process s"
  "running (ticks ts s) = running s"
  "length (procs (ticks ts s)) = length (procs s)"
  by (induction ts arbitrary: s) simp_all

lemma ticks_queue_grows: "\<exists>pushed. data_queue (ticks ts s) = data_queue s @ pushed"
proof (induction ts arbitrary: s)
  case Nil
  then show ?case by simp
next
  case (Cons t ts)
  from step_queue_grows[of "snd t" "fst t" s] obtain new where
    "data_queue (generate_data_step (snd t) (fst t) s) = data_queue s @ new" by blast
  moreover from Cons.IH[of "generate_data_step (snd t) (fst t) s"] obtain more where
    "data_queue (ticks ts (generate_data_step (snd t) (fst t) s)) =
       data_queue (generate_data_step (snd t) (fst t) s) @ more" by blast
  ultimately show ?case by simp
qed

lemma list_all_concat_take:
  "list_all (list_all P) xss \<Longrightarrow> list_all P (concat (take k xss))"
  by (induction xss arbitrary: k) (auto simp: take_Cons' list_all_iff)

lemma iso_demo: "isoformat demo_clock = ''2024-01-02T03:04:05.000678''"
  by code_simp

lemma parsed_demo:
  "parsed \<lparr>timestamp = PyStr ''2024-01-02T03:04:05.000678'', step = st, pid = p\<rparr> =
     Some \<lparr>timestamp = PyDatetime demo_clock, step = st, pid = p\<rparr>"
  using fromisoformat_isoformat[OF valid_demo_clock]
  by (simp add: parsed_def iso_demo)

lemma drain_payload:
  assumes "list_all parsable (data_queue s)" and "list_all (list_all tick_ok) sched"
  shows "\<exists>ys new.
           local_data (drain_into_buffer sched s) = local_data s @ ys \<and>
           map payload (local_data (drain_into_buffer sched s) @
                        data_queue (drain_into_buffer sched s)) =
             map payload (local_data s @ data_queue s) @ new \<and>
           list_all parsable (data_queue (drain_into_buffer sched s)) \<and>
           (sched = [] \<longrightarrow> new = [])"
proof (cases "running s")
  case False
  then have "drain_into_buffer sched s = s" by (simp add: drain_into_buffer_def)
  with assms show ?thesis by simp
next
  case True
  from drain_loop_linear[of sched s] obtain k where
    k: "k \<le> length sched" "drain_loop sched s = drain_all (ticks (concat (take k sched)) s)"
    by blast
  let ?s1 = "ticks (concat (take k sched)) s"
  from ticks_queue_grows[of "concat (take k sched)" s] obtain pushed where
    p: "data_queue ?s1 = data_queue s @ pushed" by blast
  have d: "drain_into_buffer sched s = drain_all ?s1"
    using True k(2) by (simp add: drain_into_buffer_def)
  have "list_all tick_ok (concat (take k sched))"
    using assms(2) by (simp add: list_all_concat_take)
  with assms(1) have "list_all parsable (data_queue ?s1)" by (simp add: ticks_parsable)
  then have m: "map payload (List.map_filter parsed (data_queue s @ pushed)) =
      map payload (data_queue s @ pushed)"
    unfolding p by (rule map_filter_parsable)
  have e: "sched = [] \<longrightarrow> map payload pushed = []"
    using p by auto
  have "local_data (drain_into_buffer sched s) =
      local_data s @ List.map_filter parsed (data_queue s @ pushed)"
    by (simp add: d drain_all_def p)
  moreover have "map payload (local_data (drain_into_buffer sched s) @
        data_queue (drain_into_buffer sched s)) =
      map payload (local_data s @ data_queue s) @ map payload pushed"
    using m by (simp add: d drain_all_def p)
  moreover have "list_all parsable (data_queue (drain_into_buffer sched s))"
    by (simp add: d drain_all_def)
  ultimately show ?thesis using e by blast
qed

lemma start_keeps_data:
  "counter (fst (start spawn s)) = counter s"
  "local_data (fst (start spawn s)) = local_data s"
  "data_queue (fst (start spawn s)) = data_queue s"
  by (simp_all add: start_def Let_def split: option.splits)

lemma pause_toggle_frame:
  "counter (pause_toggle s) = counter s"
  "local_data (pause_toggle s) = local_data s"
  "data_queue (pause_toggle s) = data_queue s"
  "procs (pause_toggle s) = procs s"
  "process (pause_toggle s) = process s"
  "running (pause_toggle s) = running s"
  "stop_event (pause_toggle s) = stop_event s"
  by (simp_all add: pause_toggle_def)

lemma wrapped_small:
  assumes "k < 2 ^ 31"
  shows "wrapped k = int k"
proof -
  have "sint (word_of_nat k :: 32 word) = signed_take_bit 31 (int k)"
    using sint_sbintrunc'[where 'a = 32, of "int k"] by simp
  also have "\<dots> = int k"
  proof (rule signed_take_bit_int_eq_self)
    show "- (2 ^ 31) \<le> int k" by simp
    from assms have "int k < int (2 ^ 31)" by (simp only: of_nat_less_iff)
    then show "int k < 2 ^ 31" by simp
  qed
  finally show ?thesis by (simp add: wrapped_def)
qed

lemma wrapped_big: "wrapped (2 ^ 31) = - (2 ^ 31)"
  by (simp add: wrapped_def)

lemma seq_snoc:
  "xs = map f [1..<Suc (length xs)] \<Longrightarrow>
   xs @ [f (Suc (length xs))] = map f [1..<Suc (length (xs @ [f (Suc (length xs))]))]"
  by simp

lemma seq_prefix:
  assumes "xs @ ys = map f [1..<Suc (length (xs @ ys))]"
  shows "xs = map f [1..<Suc (length xs)]"
proof -
  from assms have "take (length xs) (xs @ ys) =
      take (length xs) (map f [1..<Suc (length (xs @ ys))])"
    by (rule arg_cong)
  then show ?thesis
    by (simp add: take_map take_upt del: upt_Suc)
qed

lemma parsed_step: "parsed x = Some y \<Longrightarrow> step y = step x"
  by (auto simp: parsed_def split: pyval.splits option.splits)

lemma map_filter_step:
  "list_all parsable q \<Longrightarrow> map step (List.map_filter parsed q) = map step q"
  by (induction q) (auto simp: List.map_filter_simps parsable_def parsed_step)

lemma inflight_cong:
  "procs s' = procs s \<Longrightarrow> process s' = process s \<Longrightarrow> inflight s' = inflight s"
  by (simp add: inflight_def split: option.splits)

lemma data_inv_drain_all:
  assumes "data_inv s"
  shows "data_inv (drain_all s)"
proof -
  have p: "list_all parsable (data_queue s)" using assms by (simp add: data_inv_def)
  have "inflight (drain_all s) = inflight s"
    by (rule inflight_cong) (simp_all add: drain_all_def)
  then have "all_steps (drain_all s) = all_steps s"
    by (simp add: all_steps_def drain_all_def map_filter_step[OF p])
  with assms show ?thesis by (simp add: data_inv_def drain_all_def)
qed

lemma data_inv_step:
  assumes h: "handle_inv s" and d: "data_inv s" and v: "valid_datetime now"
  shows "data_inv (generate_data_step now i s)"
proof (cases "is_alive i s")
  case False
  then show ?thesis using d by (simp add: step_not_alive)
next
  case True
  then have i: "i < length (procs s)" and pr: "process s = Some i"
    using h by (auto simp: is_alive_def handle_inv_def)
  have p: "list_all parsable (data_queue (generate_data_step now i s))"
    using d v by (intro step_parsable) (simp_all add: data_inv_def)
  let ?n = "length (all_steps s)"
  from d have seq: "all_steps s = map wrapped [1..<Suc ?n]"
    and cnt: "counter s = word_of_nat ?n" by (simp_all add: data_inv_def)
  consider (quiet) "\<forall>st. wpc (procs s ! i) \<noteq> AtPut st" "wpc (procs s ! i) \<noteq> AtIncrement"
    | (incr) "wpc (procs s ! i) = AtIncrement"
    | (put) st where "wpc (procs s ! i) = AtPut st" by blast
  then have "all_steps (generate_data_step now i s) =
        map wrapped [1..<Suc (length (all_steps (generate_data_step now i s)))] \<and>
      counter (generate_data_step now i s) =
        word_of_nat (length (all_steps (generate_data_step now i s)))"
  proof cases
    case quiet
    then have "all_steps (generate_data_step now i s) = all_steps s"
      "counter (generate_data_step now i s) = counter s"
      using i pr
      by (auto simp: all_steps_def inflight_def generate_data_step_def Let_def
          split: wpc.splits)
    with seq cnt show ?thesis by simp
  next
    case incr
    have w: "counter s + 1 = word_of_nat (Suc ?n)"
      by (simp only: cnt of_nat_Suc add.commute)
    have c: "counter (generate_data_step now i s) = word_of_nat (Suc ?n)"
      using incr i w by (simp add: generate_data_step_def Let_def)
    have "all_steps (generate_data_step now i s) = all_steps s @ [sint (counter s + 1)]"
      using incr i pr
      by (simp add: all_steps_def inflight_def generate_data_step_def Let_def)
    then have "all_steps (generate_data_step now i s) = all_steps s @ [wrapped (Suc ?n)]"
      by (simp only: w wrapped_def)
    with seq c show ?thesis by simp
  next
    case put
    then have "all_steps (generate_data_step now i s) = all_steps s"
      "counter (generate_data_step now i s) = counter s"
      using i pr
      by (simp_all add: all_steps_def inflight_def generate_data_step_def Let_def)
    with seq cnt show ?thesis by simp
  qed
  with p show ?thesis by (simp add: data_inv_def)
qed

lemma both_inv_ticks:
  "handle_inv s \<Longrightarrow> data_inv s \<Longrightarrow> list_all tick_ok ts \<Longrightarrow>
   handle_inv (ticks ts s) \<and> data_inv (ticks ts s)"
proof (induction ts arbitrary: s)
  case Nil
  then show ?case by simp
next
  case (Cons t ts)
  have "handle_inv (generate_data_step (snd t) (fst t) s)"
    using Cons.prems(1) by (rule handle_inv_step)
  moreover have "data_inv (generate_data_step (snd t) (fst t) s)"
    using Cons.prems by (intro data_inv_step) (simp_all add: tick_ok_def)
  ultimately show ?case using Cons.IH Cons.prems(3) by simp
qed

lemma data_inv_drain:
  assumes "handle_inv s" and "data_inv s" and "list_all (list_all tick_ok) sched"
  shows "data_inv (drain_into_buffer sched s)"
proof -
  from drain_loop_linear[of sched s] obtain k where
    k: "drain_loop sched s = drain_all (ticks (concat (take k sched)) s)" by blast
  have "list_all tick_ok (concat (take k sched))"
    using assms(3) by (rule list_all_concat_take)
  with assms have "data_inv (ticks (concat (take k sched)) s)"
    by (simp add: both_inv_ticks)
  then have "data_inv (drain_all (ticks (concat (take k sched)) s))"
    by (rule data_inv_drain_all)
  with k assms(2) show ?thesis by (simp add: drain_into_buffer_def)
qed

lemma data_inv_cong:
  "procs s' = procs s \<Longrightarrow> process s' = process s \<Longrightarrow> data_queue s' = data_queue s \<Longrightarrow>
   local_data s' = local_data s \<Longrightarrow> counter s' = counter s \<Longrightarrow> data_inv s' = data_inv s"
  using inflight_cong[of s' s] by (simp add: data_inv_def all_steps_def)

lemma data_inv_pause_toggle: "data_inv s \<Longrightarrow> data_inv (pause_toggle s)"
  by (rule iffD2[OF data_inv_cong]) (simp_all add: pause_toggle_frame)

lemma data_inv_start:
  assumes h: "handle_inv s" and d: "data_inv s"
  shows "data_inv (fst (start spawn s))"
proof (cases "running s \<or> handle_alive s")
  case True
  then have "start spawn s = (s, None)"
    by (auto simp: start_def handle_alive_def split: option.splits)
  with d show ?thesis by simp
next
  case False
  then have dead: "\<not> handle_alive s" by simp
  then have i0: "inflight s = []"
    by (auto simp: inflight_def handle_alive_def is_alive_def proc_alive_def
        split: option.splits wpc.splits)
  have i1: "inflight (fst (start spawn s)) = []"
    using False dead
    by (auto simp: inflight_def start_def Let_def handle_alive_def split: option.splits)
  have "all_steps (fst (start spawn s)) = all_steps s"
    by (simp add: all_steps_def i0 i1 start_keeps_data)
  with d show ?thesis by (simp add: data_inv_def start_keeps_data)
qed

lemma data_inv_clear:
  "\<exists>s'. clear now s = Some s' \<and> (clear_enabled s \<longrightarrow> data_inv s') \<and>
        (\<not> clear_enabled s \<longrightarrow> s' = s)"
proof (cases "clear_enabled s")
  case False
  then show ?thesis by (simp add: clear_disabled)
next
  case True
  from clear_result[OF True, of now] obtain s1 where
    "clear now s =
       Some (s1\<lparr>local_data := [], counter := 0, process := None, running := False,
                data_queue := []\<rparr>)" by blast
  moreover have "data_inv (s1\<lparr>local_data := [], counter := 0, process := None,
      running := False, data_queue := []\<rparr>)"
    by (simp add: data_inv_def all_steps_def inflight_def)
  ultimately show ?thesis using True by simp
qed

lemma both_inv_exec:
  assumes h: "handle_inv s" and d: "data_inv s" and ok: "event_ok e"
  shows "\<exists>s'. exec e s = Some s' \<and> handle_inv s' \<and> data_inv s'"
proof -
  from handle_inv_exec[OF h, of e] obtain s' where
    s': "exec e s = Some s'" "handle_inv s'" by blast
  have "data_inv s'"
  proof (cases e)
    case (Tick i now)
    with s'(1) ok h d show ?thesis
      by (auto simp: exec_def event_ok_def intro: data_inv_step)
  next
    case (Script c sched)
    with ok have sc: "list_all (list_all tick_ok) sched" by (simp add: event_ok_def)
    show ?thesis
    proof (cases c)
      case NoClick
      with Script s'(1) have "s' = drain_into_buffer sched s"
        by (simp add: exec_def main_def)
      with h d sc show ?thesis by (simp add: data_inv_drain)
    next
      case (ClickStart spawn)
      obtain s1 r where st: "start spawn s = (s1, r)" by (cases "start spawn s")
      have h1: "handle_inv s1" using handle_inv_start[OF h, of spawn] st by simp
      have d1: "data_inv s1" using data_inv_start[OF h d, of spawn] st by simp
      from Script ClickStart s'(1) st have "s' = s1 \<or> s' = drain_into_buffer sched s1"
        by (cases r) (simp_all add: exec_def main_def)
      with h1 d1 sc show ?thesis by (auto simp: data_inv_drain)
    next
      case ClickPause
      with Script s'(1) have "s' = drain_into_buffer sched (pause_toggle s)"
        by (simp add: exec_def main_def)
      with h d sc show ?thesis
        by (simp add: data_inv_drain handle_inv_pause_toggle data_inv_pause_toggle)
    next
      case (ClickClear now)
      from data_inv_clear[of now s] obtain s1 where
        s1: "clear now s = Some s1" "clear_enabled s \<longrightarrow> data_inv s1"
          "\<not> clear_enabled s \<longrightarrow> s1 = s" by blast
      with d have d1: "data_inv s1" by auto
      from handle_inv_clear[OF h, of now] s1(1) have h1: "handle_inv s1" by simp
      from Script ClickClear s'(1) s1(1) have "s' = drain_into_buffer sched s1"
        by (simp add: exec_def main_def)
      with h1 d1 sc show ?thesis by (simp add: data_inv_drain)
    qed
  qed
  with s' show ?thesis by blast
qed

lemma data_inv_init: "data_inv (initialize_session_state None)"
  by (simp add: initialize_session_state_def data_inv_def all_steps_def inflight_def)

lemma both_inv_run:
  "handle_inv s \<Longrightarrow> data_inv s \<Longrightarrow> list_all event_ok evs \<Longrightarrow>
   \<exists>s'. run evs s = Some s' \<and> handle_inv s' \<and> data_inv s'"
proof (induction evs arbitrary: s)
  case Nil
  then show ?case by simp
next
  case (Cons e evs)
  from Cons.prems have "event_ok e" by simp
  from both_inv_exec[OF Cons.prems(1,2) this] obtain s1 where
    s1: "exec e s = Some s1" "handle_inv s1" "data_inv s1" by blast
  from Cons.IH[OF s1(2,3)] Cons.prems(3) s1(1) show ?case by simp
qed

lemma data_inv_buffer:
  assumes "data_inv s"
  shows "map step (local_data s) = map wrapped [1..<Suc (length (local_data s))]"
proof -
  from assms have "all_steps s = map wrapped [1..<Suc (length (all_steps s))]"
    by (simp add: data_inv_def)
  then have "map step (local_data s) @ (map step (data_queue s) @ inflight s) =
      map wrapped [1..<Suc (length (map step (local_data s) @
        (map step (data_queue s) @ inflight s)))]"
    by (simp add: all_steps_def del: upt_Suc)
  from seq_prefix[OF this] show ?thesis by (simp del: upt_Suc)
qed

lemma run_append:
  "run (xs @ ys) s = (case run xs s of None \<Rightarrow> None | Some s1 \<Rightarrow> run ys s1)"
  by (induction xs arbitrary: s) (auto split: option.splits)

lemma parsed_fresh:
  "valid_datetime now \<Longrightarrow>
   parsed \<lparr>timestamp = PyStr (isoformat now), step = st, pid = p\<rparr> =
     Some \<lparr>timestamp = PyDatetime now, step = st, pid = p\<rparr>"
  by (simp add: parsed_def fromisoformat_isoformat)

lemma emission_cycle_run:
  assumes "at_loop_head s"
  shows "\<exists>s'. run emission_cycle s = Some s' \<and> at_loop_head s' \<and>
           length (local_data s') = Suc (length (local_data s))"
proof -
  let ?s5 = "generate_data_steps 5 demo_clock 0 s"
  have t: "run emission_cycle s = Some (drain_into_buffer [] ?s5)"
    by (simp add: emission_cycle_def exec_def main_def numeral_eq_Suc)
  have f: "data_queue ?s5 =
      [\<lparr>timestamp = PyStr (isoformat demo_clock), step = sint (counter s + 1),
        pid = ospid (procs s ! 0)\<rparr>]"
    "wpc (procs ?s5 ! 0) = AtWhile"
    using assms
    by (simp_all add: at_loop_head_def numeral_eq_Suc generate_data_step_def Let_def
        set_pc_def)
  have r: "running ?s5" using assms by (simp add: at_loop_head_def)
  have "drain_loop [] ?s5 = drain_all ?s5"
    using drain_loop_linear[of "[]" ?s5] by simp
  with r have d: "drain_into_buffer [] ?s5 = drain_all ?s5"
    by (simp add: drain_into_buffer_def)
  have "at_loop_head (drain_all ?s5)"
    using assms f(2) by (simp add: at_loop_head_def drain_all_def)
  moreover have "length (local_data (drain_all ?s5)) = Suc (length (local_data s))"
    by (simp add: drain_all_def f(1) List.map_filter_simps parsed_fresh[OF valid_demo_clock])
  ultimately show ?thesis using t d by simp
qed

lemma emission_cycles_run:
  "at_loop_head s \<Longrightarrow>
   \<exists>s'. run (concat (replicate n emission_cycle)) s = Some s' \<and> at_loop_head s' \<and>
        length (local_data s') = n + length (local_data s)"
proof (induction n arbitrary: s)
  case 0
  then show ?case by simp
next
  case (Suc n)
  from emission_cycle_run[OF Suc.prems] obtain s1 where
    s1: "run emission_cycle s = Some s1" "at_loop_head s1"
      "length (local_data s1) = Suc (length (local_data s))" by blast
  from Suc.IH[OF s1(2)] obtain s' where
    "run (concat (replicate n emission_cycle)) s1 = Some s'" "at_loop_head s'"
    "length (local_data s') = n + length (local_data s1)" by blast
  with s1 show ?case by (simp add: run_append)
qed

lemma long_run_length:
  "\<exists>s. run (long_run n) (initialize_session_state None) = Some s \<and>
       length (local_data s) = n"
proof -
  let ?s0 = "fst (start (Some 100) (initialize_session_state None))"
  have s0: "?s0 = \<lparr>data_queue = [], stop_event = False, pause_event = False, counter = 0,
      local_data = [], process = Some 0, running = True,
      procs = [\<lparr>wpc = AtWhile, ospid = 100\<rparr>]\<rparr>"
    by (simp add: start_def initialize_session_state_def Let_def)
  have e: "exec (Script (ClickStart (Some 100)) []) (initialize_session_state None) = Some ?s0"
    by (simp add: exec_def main_def start_def initialize_session_state_def Let_def
        drain_into_buffer_def drain_loop_Nil_empty)
  have "at_loop_head ?s0" by (simp add: s0 at_loop_head_def)
  from emission_cycles_run[OF this, of n] obtain s' where
    "run (concat (replicate n emission_cycle)) ?s0 = Some s'"
    "length (local_data s') = n + length (local_data ?s0)" by blast
  then show ?thesis using e by (simp add: long_run_def s0)
qed

lemma long_run_ok: "list_all event_ok (long_run n)"
proof -
  have "list_all event_ok emission_cycle"
    by (simp add: emission_cycle_def event_ok_def valid_demo_clock)
  then have "list_all event_ok (concat (replicate n emission_cycle))"
    by (induction n) simp_all
  then show ?thesis by (simp add: long_run_def event_ok_def)
qed

lemma demo_running_reachable:
  "run [Script (ClickStart (Some 100)) [], Tick 0 demo_clock, Tick 0 demo_clock,
        Tick 0 demo_clock, Tick 0 demo_clock] (initialize_session_state None) =
     Some demo_running"
  by (simp add: exec_def main_def start_def initialize_session_state_def Let_def
      drain_into_buffer_def drain_loop_Nil_empty generate_data_step_def set_pc_def
      is_alive_def demo_running_def iso_demo)

lemma ticks_no_live_procs: "\<forall>j. \<not> is_alive j s \<Longrightarrow> ticks ts s = s"
  by (induction ts) (simp_all add: step_not_alive)

lemma steps_stay_alive:
  "\<not> stop_event s \<Longrightarrow> is_alive i s \<Longrightarrow> is_alive i (generate_data_steps n now i s)"
  by (induction n arbitrary: s) (simp_all add: step_stays_alive)

lemma paused_quiet:
  "pause_event s \<Longrightarrow> wpc (procs s ! i) \<noteq> AtIncrement \<Longrightarrow>
   \<forall>st. wpc (procs s ! i) \<noteq> AtPut st \<Longrightarrow>
   counter (generate_data_steps n now i s) = counter s \<and>
   data_queue (generate_data_steps n now i s) = data_queue s"
proof (induction n arbitrary: s)
  case 0
  then show ?case by simp
next
  case (Suc n)
  let ?s = "generate_data_step now i s"
  have f: "counter ?s = counter s" "data_queue ?s = data_queue s"
    using Suc.prems(2,3) by (simp_all add: generate_data_step_def Let_def split: wpc.splits)
  have q: "wpc (procs ?s ! i) \<noteq> AtIncrement \<and> (\<forall>st. wpc (procs ?s ! i) \<noteq> AtPut st)"
    using Suc.prems by (auto simp: generate_data_step_def Let_def split: wpc.splits)
  have "pause_event ?s" using Suc.prems(1) by simp
  from Suc.IH[OF this] q f show ?case by simp
qed

lemma paused_put:
  assumes "pause_event s" and "i < length (procs s)" and "wpc (procs s ! i) = AtPut st"
  shows "counter (generate_data_steps n now i s) = counter s \<and>
         (data_queue (generate_data_steps n now i s) = data_queue s \<or>
          data_queue (generate_data_steps n now i s) =
            data_queue s @
              [\<lparr>timestamp = PyStr (isoformat now), step = st, pid = ospid (procs s ! i)\<rparr>])"
proof (cases n)
  case 0
  then show ?thesis by simp
next
  case (Suc m)
  let ?s = "generate_data_step now i s"
  have s1: "?s = set_pc i AtSleep2
      (s\<lparr>data_queue := data_queue s @
         [\<lparr>timestamp = PyStr (isoformat now), step = st, pid = ospid (procs s ! i)\<rparr>]\<rparr>)"
    using assms by (simp add: generate_data_step_def Let_def)
  have "pause_event ?s" "wpc (procs ?s ! i) \<noteq> AtIncrement"
    "\<forall>st. wpc (procs ?s ! i) \<noteq> AtPut st"
    using assms by (simp_all add: s1)
  from paused_quiet[OF this, of m now] show ?thesis
    by (simp add: Suc) (simp add: s1)
qed

lemma paused_incr:
  assumes "pause_event s" and "i < length (procs s)" and "wpc (procs s ! i) = AtIncrement"
  shows "(counter (generate_data_steps n now i s) = counter s \<and>
          data_queue (generate_data_steps n now i s) = data_queue s) \<or>
         (counter (generate_data_steps n now i s) = counter s + 1 \<and>
          (data_queue (generate_data_steps n now i s) = data_queue s \<or>
           data_queue (generate_data_steps n now i s) =
             data_queue s @
               [\<lparr>timestamp = PyStr (isoformat now), step = sint (counter s + 1),
                 pid = ospid (procs s ! i)\<rparr>]))"
proof (cases n)
  case 0
  then show ?thesis by simp
next
  case (Suc m)
  let ?s = "generate_data_step now i s"
  have s1: "?s = set_pc i (AtPut (sint (counter s + 1))) (s\<lparr>counter := counter s + 1\<rparr>)"
    using assms by (simp add: generate_data_step_def Let_def)
  have "pause_event ?s" "i < length (procs ?s)"
    "wpc (procs ?s ! i) = AtPut (sint (counter s + 1))"
    using assms by (simp_all add: s1)
  from paused_put[OF this, of m now] assms(2) show ?thesis
    by (simp add: Suc) (simp add: s1)
qed

lemma paused_cycle:
  assumes "pause_event s" and "\<not> stop_event s" and "i < length (procs s)"
    and "wpc (procs s ! i) = AtWhile"
  shows "generate_data_steps 3 now i s = s" and "slept_ms 3 now i s = [100]"
proof -
  have a: "generate_data_step now i s = set_pc i AtIf s"
    using assms by (simp add: generate_data_step_def)
  have b: "generate_data_step now i (set_pc i AtIf s) = set_pc i AtSleepPaused s"
    using assms by (simp add: generate_data_step_def set_pc_def)
  have c: "generate_data_step now i (set_pc i AtSleepPaused s) = set_pc i AtWhile s"
    using assms by (simp add: generate_data_step_def set_pc_def)
  have "(procs s ! i)\<lparr>wpc := AtWhile\<rparr> = procs s ! i"
    using assms(4) by (cases "procs s ! i") simp
  then have d: "set_pc i AtWhile s = s" by (simp add: set_pc_def)
  show "generate_data_steps 3 now i s = s"
    by (simp add: numeral_3_eq_3 a b c d)
  show "slept_ms 3 now i s = [100]"
    using assms
    by (simp add: numeral_3_eq_3 a b c sleep_ms_def is_alive_def proc_alive_def)
qed

lemma resume_steps:
  assumes "\<not> pause_event s" and "\<not> stop_event s" and "is_alive i s"
  shows "\<exists>n \<le> 5. \<exists>x.
           data_queue (generate_data_steps n now i s) = data_queue s @ [x] \<and>
           timestamp x = PyStr (isoformat now) \<and> pid x = ospid (procs s ! i) \<and>
           ((\<forall>st. wpc (procs s ! i) \<noteq> AtPut st) \<longrightarrow>
              step x = sint (counter s + 1) \<and>
              counter (generate_data_steps n now i s) = counter s + 1) \<and>
           length (slept_ms n now i s) \<le> 1"
proof -
  from assms(3) have i: "i < length (procs s)" and al: "proc_alive (procs s ! i)"
    by (simp_all add: is_alive_def)
  have ex: "\<exists>n \<le> 5. \<exists>x.
           data_queue (generate_data_steps n now i s) = data_queue s @ [x] \<and>
           timestamp x = PyStr (isoformat now) \<and> pid x = ospid (procs s ! i) \<and>
           ((\<forall>st. wpc (procs s ! i) \<noteq> AtPut st) \<longrightarrow>
              step x = sint (counter s + 1) \<and>
              counter (generate_data_steps n now i s) = counter s + 1) \<and>
           length (slept_ms n now i s) \<le> 1"
    if "m \<le> 5" "\<exists>x. data_queue (generate_data_steps m now i s) = data_queue s @ [x] \<and>
           timestamp x = PyStr (isoformat now) \<and> pid x = ospid (procs s ! i) \<and>
           ((\<forall>st. wpc (procs s ! i) \<noteq> AtPut st) \<longrightarrow>
              step x = sint (counter s + 1) \<and>
              counter (generate_data_steps m now i s) = counter s + 1)"
       "length (slept_ms m now i s) \<le> 1" for m
    using that by blast
  show ?thesis
  proof (cases "wpc (procs s ! i)")
    case Unstarted
    with al show ?thesis by (simp add: proc_alive_def)
  next
    case Exited
    with al show ?thesis by (simp add: proc_alive_def)
  next
    case AtWhile
    show ?thesis
      by (rule ex[of 4])
        (use AtWhile assms i in \<open>simp_all add: numeral_eq_Suc generate_data_step_def Let_def
          set_pc_def sleep_ms_def is_alive_def proc_alive_def\<close>)
  next
    case AtIf
    show ?thesis
      by (rule ex[of 3])
        (use AtIf assms i in \<open>simp_all add: numeral_eq_Suc generate_data_step_def Let_def
          set_pc_def sleep_ms_def is_alive_def proc_alive_def\<close>)
  next
    case AtIncrement
    show ?thesis
      by (rule ex[of 2])
        (use AtIncrement assms i in \<open>simp_all add: numeral_eq_Suc generate_data_step_def
          Let_def set_pc_def sleep_ms_def is_alive_def proc_alive_def\<close>)
  next
    case (AtPut st)
    show ?thesis
      by (rule ex[of 1])
        (use AtPut assms i in \<open>simp_all add: numeral_eq_Suc generate_data_step_def Let_def
          set_pc_def sleep_ms_def is_alive_def proc_alive_def\<close>)
  next
    case AtSleep2
    show ?thesis
      by (rule ex[of 5])
        (use AtSleep2 assms i in \<open>simp_all add: numeral_eq_Suc generate_data_step_def Let_def
          set_pc_def sleep_ms_def is_alive_def proc_alive_def\<close>)
  next
    case AtSleepPaused
    show ?thesis
      by (rule ex[of 5])
        (use AtSleepPaused assms i in \<open>simp_all add: numeral_eq_Suc generate_data_step_def
          Let_def set_pc_def sleep_ms_def is_alive_def proc_alive_def\<close>)
  qed
qed

section \<open>The claims\<close>

text \<open>
  Claim C2. After any sequence of worker steps and script runs (Start, Pause and Clear
  clicks, each followed by the drain, with any interleaving of worker steps) from the
  freshly initialised session, the script run returns, at most one process is alive, a
  live process is the one the session's handle holds, and \<open>running\<close> holds exactly when
  the handle's process is alive.
\<close>

theorem at_most_one_live_worker:
  "\<exists>s. run evs (initialize_session_state None) = Some s \<and> live_count s \<le> 1 \<and>
       (\<forall>j. is_alive j s \<longrightarrow> process s = Some j) \<and> running s = handle_alive s"
proof -
  from handle_inv_run[OF handle_inv_init, of evs] obtain s where
    s: "run evs (initialize_session_state None) = Some s" "handle_inv s" by blast
  from s(2) have a: "\<forall>j. is_alive j s \<longrightarrow> process s = Some j" "running s = handle_alive s"
    by (simp_all add: handle_inv_def)
  from a(1) have "live_count s \<le> 1" by (rule live_count_le)
  with s(1) a show ?thesis by blast
qed

theorem at_most_one_live_worker_witness:
  "\<exists>s. run [Script (ClickStart (Some 100)) [], Tick 0 demo_clock]
          (initialize_session_state None) = Some s \<and>
       is_alive 0 s \<and> process s = Some 0 \<and> live_count s \<le> 1"
proof -
  let ?evs = "[Script (ClickStart (Some 100)) [], Tick 0 demo_clock]"
  from at_most_one_live_worker[of ?evs] obtain s where
    s: "run ?evs (initialize_session_state None) = Some s" "live_count s \<le> 1"
       "\<forall>j. is_alive j s \<longrightarrow> process s = Some j" by blast
  have "run ?evs (initialize_session_state None) =
      Some \<lparr>data_queue = [], stop_event = False, pause_event = False, counter = 0,
            local_data = [], process = Some 0, running = True,
            procs = [\<lparr>wpc = AtIf, ospid = 100\<rparr>]\<rparr>"
    by (simp add: exec_def main_def start_def initialize_session_state_def Let_def
        drain_into_buffer_def drain_loop_Nil_empty generate_data_step_def set_pc_def
        is_alive_def)
  with s(1) have "is_alive 0 s \<and> process s = Some 0"
    by (auto simp: is_alive_def proc_alive_def)
  with s show ?thesis by blast
qed

text \<open>
  Claim C4. With the stop event set, a live worker at the head of its loop leaves on its
  next step, whatever the pause event says (the stop test comes first), without touching
  the counter or the queue. From any point of the loop the worker exits within five steps,
  of which at most one is a sleep; \<open>join\<close> returns that state, and every later step of the
  exited worker changes nothing.
\<close>

theorem stop_flag_observed:
  assumes "stop_event s" and "is_alive i s"
  shows "(wpc (procs s ! i) = AtWhile \<longrightarrow>
            generate_data_step now i s = set_pc i Exited s \<and>
            counter (generate_data_step now i s) = counter s \<and>
            data_queue (generate_data_step now i s) = data_queue s \<and>
            \<not> is_alive i (generate_data_step now i s)) \<and>
         (\<exists>n \<le> 5.
            join now i s = Some (generate_data_steps n now i s) \<and>
            \<not> is_alive i (generate_data_steps n now i s) \<and>
            length (slept_ms n now i s) \<le> 1 \<and>
            (\<forall>m t. generate_data_steps m t i (generate_data_steps n now i s) =
                   generate_data_steps n now i s))"
proof (intro conjI impI)
  assume pc: "wpc (procs s ! i) = AtWhile"
  from assms(2) have i: "i < length (procs s)" by (simp add: is_alive_def)
  with pc assms(1) show a: "generate_data_step now i s = set_pc i Exited s"
    by (simp add: generate_data_step_def)
  show "counter (generate_data_step now i s) = counter s"
    and "data_queue (generate_data_step now i s) = data_queue s"
    by (simp_all add: a)
  show "\<not> is_alive i (generate_data_step now i s)"
    using i by (simp add: a is_alive_def proc_alive_def)
next
  from join_stop[OF assms(1), of i now] obtain n where
    n: "n \<le> rank (wpc (procs s ! i))"
      "join now i s = Some (generate_data_steps n now i s)"
      "\<not> is_alive i (generate_data_steps n now i s)" by blast
  have "n \<le> 5" using n(1) rank_le[of "wpc (procs s ! i)"] by simp
  moreover have "length (slept_ms n now i s) \<le> 1"
    using slept_bound[OF assms(1), of n now i] by (simp split: if_splits)
  moreover have "\<forall>m t. generate_data_steps m t i (generate_data_steps n now i s) =
      generate_data_steps n now i s"
    using n(3) by (simp add: steps_not_alive)
  ultimately show "\<exists>n \<le> 5.
      join now i s = Some (generate_data_steps n now i s) \<and>
      \<not> is_alive i (generate_data_steps n now i s) \<and>
      length (slept_ms n now i s) \<le> 1 \<and>
      (\<forall>m t. generate_data_steps m t i (generate_data_steps n now i s) =
             generate_data_steps n now i s)"
    using n(2,3) by blast
qed

theorem stop_flag_observed_witness:
  "stop_event demo_stopping \<and> is_alive 0 demo_stopping \<and>
   (\<exists>n \<le> 5. join demo_clock 0 demo_stopping =
        Some (generate_data_steps n demo_clock 0 demo_stopping) \<and>
      \<not> is_alive 0 (generate_data_steps n demo_clock 0 demo_stopping) \<and>
      length (slept_ms n demo_clock 0 demo_stopping) \<le> 1)"
proof -
  have h1: "stop_event demo_stopping" by (simp add: demo_stopping_def)
  have h2: "is_alive 0 demo_stopping"
    by (simp add: demo_stopping_def is_alive_def proc_alive_def)
  from stop_flag_observed[OF h1 h2, of demo_clock] h1 h2 show ?thesis by blast
qed

text \<open>
  Claim C8. In every state the session can reach: \<open>start\<close> changes nothing when the
  handle's process is alive. Otherwise it clears both events, appends one new process
  bound to the session's queue, events and counter, stores its handle and sets
  \<open>running\<close>; exactly one process is then alive. When the spawn fails, the failure is
  returned to the caller of \<open>start\<close> and of \<open>main\<close>, \<open>running\<close> stays false and no process
  is alive.
\<close>

theorem start_spec:
  assumes "run evs (initialize_session_state None) = Some s"
  shows "(handle_alive s \<longrightarrow> start spawn s = (s, None)) \<and>
         (\<not> handle_alive s \<longrightarrow>
            start (Some p) s =
              (s\<lparr>stop_event := False, pause_event := False,
                 procs := procs s @ [\<lparr>wpc = AtWhile, ospid = p\<rparr>],
                 process := Some (length (procs s)), running := True\<rparr>, None) \<and>
            live_count (fst (start (Some p) s)) = 1 \<and>
            handle_alive (fst (start (Some p) s)) \<and>
            start None s =
              (s\<lparr>stop_event := False, pause_event := False,
                 procs := procs s @ [\<lparr>wpc = Unstarted, ospid = 0\<rparr>],
                 process := Some (length (procs s))\<rparr>, Some SpawnFailure) \<and>
            \<not> running (fst (start None s)) \<and>
            live_count (fst (start None s)) = 0 \<and>
            main (ClickStart None) sched s = Some (fst (start None s), Some SpawnFailure))"
proof (intro conjI impI)
  assume "handle_alive s"
  then show "start spawn s = (s, None)"
    by (auto simp: start_def handle_alive_def split: option.splits)
next
  assume dead: "\<not> handle_alive s"
  from handle_inv_run[OF handle_inv_init, of evs] assms have inv: "handle_inv s" by auto
  with dead have nr: "\<not> running s" by (simp add: handle_inv_def)
  from dead have c: "(case process s of None \<Rightarrow> True | Some j \<Rightarrow> \<not> is_alive j s)"
    by (simp add: handle_alive_def split: option.splits)
  have "\<forall>j. \<not> is_alive j s"
    using inv dead by (auto simp: handle_inv_def handle_alive_def)
  then have none: "filter proc_alive (procs s) = []" by (rule no_live_procs)
  show ok: "start (Some p) s =
      (s\<lparr>stop_event := False, pause_event := False,
         procs := procs s @ [\<lparr>wpc = AtWhile, ospid = p\<rparr>],
         process := Some (length (procs s)), running := True\<rparr>, None)"
    using nr c by (simp add: start_def Let_def)
  show "live_count (fst (start (Some p) s)) = 1"
    by (simp add: ok live_count_def none proc_alive_def)
  show "handle_alive (fst (start (Some p) s))"
    by (simp add: ok handle_alive_def is_alive_def proc_alive_def)
  show bad: "start None s =
      (s\<lparr>stop_event := False, pause_event := False,
         procs := procs s @ [\<lparr>wpc = Unstarted, ospid = 0\<rparr>],
         process := Some (length (procs s))\<rparr>, Some SpawnFailure)"
    using nr c by (simp add: start_def Let_def)
  show "\<not> running (fst (start None s))"
    using nr by (simp add: bad)
  show "live_count (fst (start None s)) = 0"
    by (simp add: bad live_count_def none proc_alive_def)
  show "main (ClickStart None) sched s = Some (fst (start None s), Some SpawnFailure)"
    by (simp add: main_def bad)
qed

theorem start_spec_witness:
  "run [] (initialize_session_state None) = Some (initialize_session_state None) \<and>
   \<not> handle_alive (initialize_session_state None) \<and>
   live_count (fst (start (Some 100) (initialize_session_state None))) = 1 \<and>
   handle_alive (fst (start (Some 100) (initialize_session_state None))) \<and>
   \<not> running (fst (start None (initialize_session_state None))) \<and>
   snd (start None (initialize_session_state None)) = Some SpawnFailure"
proof -
  let ?i = "initialize_session_state None"
  have r: "run [] ?i = Some ?i" by simp
  have d: "\<not> handle_alive ?i"
    by (simp add: handle_alive_def initialize_session_state_def)
  from start_spec[OF r, of None 100 "[]"] d have
    "live_count (fst (start (Some 100) ?i)) = 1 \<and>
     handle_alive (fst (start (Some 100) ?i)) \<and>
     \<not> running (fst (start None ?i)) \<and>
     (\<exists>x. start None ?i = (x, Some SpawnFailure))"
    by blast
  with r d show ?thesis by auto
qed

text \<open>
  Claim C10. \<open>start\<close> leaves the counter, the local buffer and the queue as they were.
  The first sample of the worker it spawns carries the step that follows the counter's
  value at the time of the start: \<open>start\<close> itself resets nothing.
\<close>

theorem start_frame:
  "counter (fst (start spawn s)) = counter s \<and>
   local_data (fst (start spawn s)) = local_data s \<and>
   data_queue (fst (start spawn s)) = data_queue s \<and>
   (\<not> running s \<and> \<not> handle_alive s \<longrightarrow>
      data_queue (generate_data_steps 4 now (length (procs s)) (fst (start (Some p) s))) =
        data_queue s @
          [\<lparr>timestamp = PyStr (isoformat now), step = sint (counter s + 1), pid = p\<rparr>])"
proof (intro conjI impI)
  show "counter (fst (start spawn s)) = counter s"
    by (simp add: start_def Let_def split: option.splits)
  show "local_data (fst (start spawn s)) = local_data s"
    by (simp add: start_def Let_def split: option.splits)
  show "data_queue (fst (start spawn s)) = data_queue s"
    by (simp add: start_def Let_def split: option.splits)
next
  assume a: "\<not> running s \<and> \<not> handle_alive s"
  then have c: "(case process s of None \<Rightarrow> True | Some j \<Rightarrow> \<not> is_alive j s)"
    by (simp add: handle_alive_def split: option.splits)
  have st: "fst (start (Some p) s) =
      s\<lparr>stop_event := False, pause_event := False,
        procs := procs s @ [\<lparr>wpc = AtWhile, ospid = p\<rparr>],
        process := Some (length (procs s)), running := True\<rparr>"
    using a c by (simp add: start_def Let_def)
  show "data_queue (generate_data_steps 4 now (length (procs s)) (fst (start (Some p) s))) =
        data_queue s @
          [\<lparr>timestamp = PyStr (isoformat now), step = sint (counter s + 1), pid = p\<rparr>]"
    unfolding st
    by (simp add: numeral_eq_Suc generate_data_step_def Let_def set_pc_def)
qed

theorem start_frame_witness:
  "\<not> running (demo_running\<lparr>running := False, process := None, procs := []\<rparr>) \<and>
   \<not> handle_alive (demo_running\<lparr>running := False, process := None, procs := []\<rparr>) \<and>
   counter (fst (start (Some 7) (demo_running\<lparr>running := False, process := None, procs := []\<rparr>))) = 1 \<and>
   data_queue (generate_data_steps 4 demo_clock 0
      (fst (start (Some 7) (demo_running\<lparr>running := False, process := None, procs := []\<rparr>)))) =
     data_queue demo_running @
       [\<lparr>timestamp = PyStr (isoformat demo_clock), step = 2, pid = 7\<rparr>]"
proof -
  let ?s = "demo_running\<lparr>running := False, process := None, procs := []\<rparr>"
  have h: "\<not> running ?s \<and> \<not> handle_alive ?s"
    by (simp add: handle_alive_def)
  have c: "counter ?s = 1" "data_queue ?s = data_queue demo_running" "procs ?s = []"
    by (simp_all add: demo_running_def)
  from start_frame[of "Some 7" ?s demo_clock 7] h c show ?thesis
    by simp
qed

text \<open>
  Claim C9. The drain does nothing unless \<open>running\<close> holds. While running, its loop always
  returns (it is a total function: every pop is non-blocking and every exception of the
  loop body is swallowed), and its result is that of letting the worker steps that were
  interleaved with it run first and then moving the whole queue, in FIFO order, to the end
  of the local buffer, each sample with its timestamp parsed. The queue is empty on
  return. When the queued samples are the worker's (their timestamps parse), none is
  dropped and the appended samples carry the steps, producer ids and instants of the
  queued ones in the same order. With no worker step interleaved the buffer grows by
  exactly the queue.
\<close>

theorem drain_into_buffer_spec:
  "(\<not> running s \<longrightarrow> drain_into_buffer sched s = s) \<and>
   (running s \<longrightarrow>
      (\<exists>k \<le> length sched. \<exists>pushed.
         data_queue (ticks (concat (take k sched)) s) = data_queue s @ pushed \<and>
         drain_into_buffer sched s =
           (ticks (concat (take k sched)) s)
             \<lparr>data_queue := [],
              local_data := local_data s @ List.map_filter parsed (data_queue s @ pushed)\<rparr> \<and>
         (list_all parsable (data_queue s) \<and> list_all (list_all tick_ok) sched \<longrightarrow>
            map payload (List.map_filter parsed (data_queue s @ pushed)) =
              map payload (data_queue s @ pushed)))) \<and>
   (running s \<longrightarrow>
      drain_into_buffer [] s =
        s\<lparr>data_queue := [],
          local_data := local_data s @ List.map_filter parsed (data_queue s)\<rparr>)"
proof (intro conjI impI)
  assume "\<not> running s"
  then show "drain_into_buffer sched s = s" by (simp add: drain_into_buffer_def)
next
  assume r: "running s"
  from drain_loop_linear[of sched s] obtain k where
    k: "k \<le> length sched" "drain_loop sched s = drain_all (ticks (concat (take k sched)) s)"
    by blast
  let ?s1 = "ticks (concat (take k sched)) s"
  from ticks_queue_grows[of "concat (take k sched)" s] obtain pushed where
    p: "data_queue ?s1 = data_queue s @ pushed" by blast
  have d: "drain_into_buffer sched s =
      ?s1\<lparr>data_queue := [],
          local_data := local_data s @ List.map_filter parsed (data_queue s @ pushed)\<rparr>"
    using r k(2) p by (simp add: drain_into_buffer_def drain_all_def)
  have "list_all parsable (data_queue s) \<and> list_all (list_all tick_ok) sched \<longrightarrow>
      map payload (List.map_filter parsed (data_queue s @ pushed)) =
        map payload (data_queue s @ pushed)"
  proof
    assume a: "list_all parsable (data_queue s) \<and> list_all (list_all tick_ok) sched"
    then have "list_all tick_ok (concat (take k sched))" by (simp add: list_all_concat_take)
    with a have "list_all parsable (data_queue ?s1)" by (simp add: ticks_parsable)
    then show "map payload (List.map_filter parsed (data_queue s @ pushed)) =
        map payload (data_queue s @ pushed)"
      unfolding p by (rule map_filter_parsable)
  qed
  with k(1) p d show "\<exists>k \<le> length sched. \<exists>pushed.
         data_queue (ticks (concat (take k sched)) s) = data_queue s @ pushed \<and>
         drain_into_buffer sched s =
           (ticks (concat (take k sched)) s)
             \<lparr>data_queue := [],
              local_data := local_data s @ List.map_filter parsed (data_queue s @ pushed)\<rparr> \<and>
         (list_all parsable (data_queue s) \<and> list_all (list_all tick_ok) sched \<longrightarrow>
            map payload (List.map_filter parsed (data_queue s @ pushed)) =
              map payload (data_queue s @ pushed))"
    by blast
next
  assume r: "running s"
  from drain_loop_linear[of "[]" s] have "drain_loop [] s = drain_all s" by simp
  with r show "drain_into_buffer [] s =
        s\<lparr>data_queue := [],
          local_data := local_data s @ List.map_filter parsed (data_queue s)\<rparr>"
    by (simp add: drain_into_buffer_def drain_all_def)
qed

theorem drain_into_buffer_spec_witness:
  "running demo_running \<and> list_all parsable (data_queue demo_running) \<and>
   drain_into_buffer [] demo_running =
     demo_running\<lparr>data_queue := [],
       local_data := [\<lparr>timestamp = PyDatetime demo_clock, step = 1, pid = 100\<rparr>]\<rparr>"
proof -
  have r: "running demo_running" by (simp add: demo_running_def)
  have q: "data_queue demo_running =
      [\<lparr>timestamp = PyStr ''2024-01-02T03:04:05.000678'', step = 1, pid = 100\<rparr>]"
    "local_data demo_running = []"
    by (simp_all add: demo_running_def)
  have p: "list_all parsable (data_queue demo_running)"
    by (simp add: q parsable_def parsed_demo)
  from drain_into_buffer_spec[of demo_running "[]"] r have
    "drain_into_buffer [] demo_running =
       demo_running\<lparr>data_queue := [],
         local_data := local_data demo_running @
           List.map_filter parsed (data_queue demo_running)\<rparr>"
    by blast
  then show ?thesis using r p by (simp add: q List.map_filter_simps parsed_demo)
qed

text \<open>
  Claim C6, as the code has it. The drain replaces the timestamp of every sample it moves
  to the buffer: the ISO string the worker wrote becomes the datetime it denotes. What no
  event other than a Clear click changes is the payload of a sample, that is its step,
  its producer id and the instant its timestamp denotes: the payloads of the buffered and
  queued samples, in order, only grow at the end, and only by worker steps (a script run
  with no worker step interleaved adds nothing). A record already in the buffer is never
  touched again: the buffer only grows at the end.
\<close>

theorem sample_fields_preserved:
  assumes "list_all parsable (data_queue s)" and "event_ok e"
    and "\<forall>now sched. e \<noteq> Script (ClickClear now) sched"
  shows "\<exists>s'. exec e s = Some s' \<and> list_all parsable (data_queue s') \<and>
           (\<exists>ys. local_data s' = local_data s @ ys) \<and>
           (\<exists>new. map payload (local_data s' @ data_queue s') =
                    map payload (local_data s @ data_queue s) @ new \<and>
                  ((\<exists>c. e = Script c []) \<longrightarrow> new = []))"
proof (cases e)
  case (Tick i now)
  let ?s = "generate_data_step now i s"
  from step_queue_grows[of now i s] obtain new where
    n: "data_queue ?s = data_queue s @ new" by blast
  have "list_all parsable (data_queue ?s)"
    using assms(1,2) Tick by (intro step_parsable) (simp_all add: event_ok_def)
  moreover have "map payload (local_data ?s @ data_queue ?s) =
      map payload (local_data s @ data_queue s) @ map payload new"
    by (simp add: n)
  ultimately show ?thesis using Tick by (simp add: exec_def)
next
  case (Script c sched)
  with assms(2) have ok: "list_all (list_all tick_ok) sched" by (simp add: event_ok_def)
  have main_drain: "\<exists>s'. exec e s = Some s' \<and> list_all parsable (data_queue s') \<and>
           (\<exists>ys. local_data s' = local_data s @ ys) \<and>
           (\<exists>new. map payload (local_data s' @ data_queue s') =
                    map payload (local_data s @ data_queue s) @ new \<and>
                  (sched = [] \<longrightarrow> new = []))"
    if h: "local_data s1 = local_data s" "data_queue s1 = data_queue s"
      "exec e s = Some (drain_into_buffer sched s1)" for s1
  proof -
    have "list_all parsable (data_queue s1)" using assms(1) h by simp
    from drain_payload[OF this ok] obtain ys new where
      "local_data (drain_into_buffer sched s1) = local_data s1 @ ys"
      "map payload (local_data (drain_into_buffer sched s1) @
                    data_queue (drain_into_buffer sched s1)) =
         map payload (local_data s1 @ data_queue s1) @ new"
      "list_all parsable (data_queue (drain_into_buffer sched s1))"
      "sched = [] \<longrightarrow> new = []" by blast
    with h show ?thesis by auto
  qed
  have goal: ?thesis
    if "\<exists>s'. exec e s = Some s' \<and> list_all parsable (data_queue s') \<and>
           (\<exists>ys. local_data s' = local_data s @ ys) \<and>
           (\<exists>new. map payload (local_data s' @ data_queue s') =
                    map payload (local_data s @ data_queue s) @ new \<and>
                  (sched = [] \<longrightarrow> new = []))"
    using that Script by auto
  show ?thesis
  proof (cases c)
    case NoClick
    show ?thesis
      by (rule goal, rule main_drain[of s]) (simp_all add: Script NoClick exec_def main_def)
  next
    case (ClickStart spawn)
    obtain s1 r where st: "start spawn s = (s1, r)" by (cases "start spawn s")
    have f: "local_data s1 = local_data s" "data_queue s1 = data_queue s"
      using start_keeps_data[of spawn s] st by simp_all
    show ?thesis
    proof (cases r)
      case None
      then have "exec e s = Some (drain_into_buffer sched s1)"
        by (simp add: Script ClickStart exec_def main_def st)
      with f show ?thesis by (intro goal main_drain[of s1])
    next
      case (Some err)
      then have "exec e s = Some s1"
        by (simp add: Script ClickStart exec_def main_def st)
      with assms(1) f show ?thesis by (intro goal) simp
    qed
  next
    case ClickPause
    show ?thesis
      by (rule goal, rule main_drain[of "pause_toggle s"])
        (simp_all add: Script ClickPause exec_def main_def pause_toggle_frame)
  next
    case (ClickClear now)
    with assms(3) Script show ?thesis by simp
  qed
qed

theorem sample_fields_preserved_witness:
  "list_all parsable (data_queue demo_running) \<and> event_ok (Script NoClick []) \<and>
   (\<exists>s'. exec (Script NoClick []) demo_running = Some s' \<and>
      (\<exists>ys. local_data s' = local_data demo_running @ ys) \<and>
      map payload (local_data s' @ data_queue s') =
        map payload (local_data demo_running @ data_queue demo_running))"
proof -
  have p: "list_all parsable (data_queue demo_running)"
    by (simp add: demo_running_def parsable_def parsed_demo)
  have e: "event_ok (Script NoClick [])" by (simp add: event_ok_def)
  have c: "\<forall>now sched. Script NoClick [] \<noteq> Script (ClickClear now) sched" by simp
  from sample_fields_preserved[OF p e c] p e show ?thesis by auto
qed

text \<open>
  Claim C6 as stated fails: after a start and four worker steps the queue holds a sample
  whose timestamp is a string, and the drain appends that sample to the buffer with its
  timestamp field replaced by a datetime.
\<close>

theorem timestamp_rewritten_counterexample:
  "run [Script (ClickStart (Some 100)) [], Tick 0 demo_clock, Tick 0 demo_clock,
        Tick 0 demo_clock, Tick 0 demo_clock] (initialize_session_state None) =
     Some demo_running \<and>
   data_queue demo_running =
     [\<lparr>timestamp = PyStr ''2024-01-02T03:04:05.000678'', step = 1, pid = 100\<rparr>] \<and>
   local_data (drain_into_buffer [] demo_running) =
     [\<lparr>timestamp = PyDatetime demo_clock, step = 1, pid = 100\<rparr>] \<and>
   PyStr ''2024-01-02T03:04:05.000678'' \<noteq> PyDatetime demo_clock"
proof (intro conjI)
  show "run [Script (ClickStart (Some 100)) [], Tick 0 demo_clock, Tick 0 demo_clock,
        Tick 0 demo_clock, Tick 0 demo_clock] (initialize_session_state None) =
     Some demo_running"
    by (simp add: exec_def main_def start_def initialize_session_state_def Let_def
        drain_into_buffer_def drain_loop_Nil_empty generate_data_step_def set_pc_def
        is_alive_def demo_running_def iso_demo)
  show "data_queue demo_running =
     [\<lparr>timestamp = PyStr ''2024-01-02T03:04:05.000678'', step = 1, pid = 100\<rparr>]"
    by (simp add: demo_running_def)
  have "drain_loop [] demo_running = drain_all demo_running"
    using drain_loop_linear[of "[]" demo_running] by simp
  then show "local_data (drain_into_buffer [] demo_running) =
     [\<lparr>timestamp = PyDatetime demo_clock, step = 1, pid = 100\<rparr>]"
    by (simp add: drain_into_buffer_def drain_all_def demo_running_def
        List.map_filter_simps parsed_demo)
  show "PyStr ''2024-01-02T03:04:05.000678'' \<noteq> PyDatetime demo_clock" by simp
qed

text \<open>
  Claim C5, as the code has it. The counter is a 32-bit C integer (\<open>mp.Value('i', 0)\<close>),
  so the step of the k-th sample of a run is k wrapped to a signed 32-bit value. After any
  sequence of worker steps and script runs from the freshly initialised session (clock
  readings being valid datetimes), the steps of the buffered samples are, in order, the
  wrapped values of 1, 2, 3, ... with no gap and no duplicate; as long as the buffer holds
  fewer than 2^31 samples these are the integers 1, 2, 3, ... themselves. Clear empties
  the buffer and resets the counter, so this covers every single run.
\<close>

theorem buffer_steps_in_sequence:
  assumes "list_all event_ok evs"
  shows "\<exists>s. run evs (initialize_session_state None) = Some s \<and>
           map step (local_data s) = map wrapped [1..<Suc (length (local_data s))] \<and>
           (length (local_data s) < 2 ^ 31 \<longrightarrow>
              map step (local_data s) = map int [1..<Suc (length (local_data s))])"
proof -
  from both_inv_run[OF handle_inv_init data_inv_init assms] obtain s where
    s: "run evs (initialize_session_state None) = Some s" "data_inv s" by blast
  have a: "map step (local_data s) = map wrapped [1..<Suc (length (local_data s))]"
    using s(2) by (rule data_inv_buffer)
  have "map wrapped [1..<Suc (length (local_data s))] =
      map int [1..<Suc (length (local_data s))]"
    if "length (local_data s) < 2 ^ 31"
  proof (rule map_cong[OF refl])
    fix k assume "k \<in> set [1..<Suc (length (local_data s))]"
    with that have "k < 2 ^ 31" by auto
    then show "wrapped k = int k" by (rule wrapped_small)
  qed
  with a s(1) show ?thesis by auto
qed

theorem buffer_steps_in_sequence_witness:
  "list_all event_ok (long_run 2) \<and>
   (\<exists>s. run (long_run 2) (initialize_session_state None) = Some s \<and>
      map step (local_data s) = [1, 2])"
proof -
  from buffer_steps_in_sequence[OF long_run_ok, of 2] obtain s where
    s: "run (long_run 2) (initialize_session_state None) = Some s"
      "length (local_data s) < 2 ^ 31 \<longrightarrow>
         map step (local_data s) = map int [1..<Suc (length (local_data s))]" by blast
  from long_run_length[of 2] s(1) have "length (local_data s) = 2" by simp
  with s have "map step (local_data s) = [1, 2]" by (simp add: upt_rec)
  with s(1) long_run_ok[of 2] show ?thesis by (intro conjI exI[of _ s])
qed

text \<open>
  Claim C5 as stated fails on a long run: one start followed by 2^31 emission cycles
  (five worker steps and one script run each, no click) leaves 2^31 samples in the buffer,
  and the step after 2147483647 is -2147483648.
\<close>

theorem step_wraps_counterexample:
  "list_all event_ok (long_run (2 ^ 31)) \<and>
   (case run (long_run (2 ^ 31)) (initialize_session_state None) of
      None \<Rightarrow> False
    | Some s \<Rightarrow>
        length (local_data s) = 2 ^ 31 \<and>
        map step (local_data s) ! (2 ^ 31 - 2) = 2147483647 \<and>
        map step (local_data s) ! (2 ^ 31 - 1) = - 2147483648)"
proof -
  from both_inv_run[OF handle_inv_init data_inv_init long_run_ok, of "2 ^ 31"] obtain s where
    s: "run (long_run (2 ^ 31)) (initialize_session_state None) = Some s" "data_inv s"
    by blast
  from long_run_length[of "2 ^ 31"] s(1) have len: "length (local_data s) = 2 ^ 31" by simp
  have m: "map step (local_data s) = map wrapped [1..<Suc (2 ^ 31)]"
    using data_inv_buffer[OF s(2)] by (simp only: len)
  have n: "map wrapped [1..<Suc (2 ^ 31)] ! i = wrapped (Suc i)" if "i < 2 ^ 31" for i
    using that by (simp add: nth_append del: upt_Suc)
  have "map step (local_data s) ! (2 ^ 31 - 2) = wrapped (2 ^ 31 - 1)"
    unfolding m by (subst n) simp_all
  also have "\<dots> = 2147483647"
    by (subst wrapped_small) simp_all
  finally have a: "map step (local_data s) ! (2 ^ 31 - 2) = 2147483647" .
  have "map step (local_data s) ! (2 ^ 31 - 1) = wrapped (2 ^ 31)"
    unfolding m by (subst n) simp_all
  also have "\<dots> = - 2147483648"
    using wrapped_big by simp
  finally have b: "map step (local_data s) ! (2 ^ 31 - 1) = - 2147483648" .
  from s(1) len a b long_run_ok show ?thesis by simp
qed

text \<open>
  Claim C1. Whenever the Clear button is enabled, \<open>clear\<close> returns (the join on the worker
  terminates, because the stop event is set first), and in the state it returns the local
  buffer is empty, the counter is 0, \<open>running\<close> is false, the queue is empty and the
  worker handle is released. The process the handle held is no longer alive. In every
  state the session can reach, no process at all is alive after \<open>clear\<close>, so no later
  worker step changes the state: the four facts stay, and nothing stale reaches the queue.
  Invoking \<open>clear\<close> again in that state returns the same state.
\<close>

theorem clear_resets:
  assumes "clear_enabled s"
  shows "\<exists>s1. clear now s = Some s1 \<and> local_data s1 = [] \<and> counter s1 = 0 \<and>
           \<not> running s1 \<and> data_queue s1 = [] \<and> process s1 = None \<and>
           clear later s1 = Some s1 \<and>
           (\<forall>i. process s = Some i \<longrightarrow> \<not> is_alive i s1) \<and>
           ((\<exists>evs. run evs (initialize_session_state None) = Some s) \<longrightarrow>
              (\<forall>j. \<not> is_alive j s1) \<and> live_count s1 = 0 \<and> (\<forall>ts. ticks ts s1 = s1))"
proof -
  from clear_result[OF assms, of now] obtain s0 where
    s0: "clear now s =
           Some (s0\<lparr>local_data := [], counter := 0, process := None, running := False,
                    data_queue := []\<rparr>)"
        "\<forall>j. is_alive j s0 \<longrightarrow> is_alive j s \<and> process s \<noteq> Some j" by blast
  let ?s1 = "s0\<lparr>local_data := [], counter := 0, process := None, running := False,
                data_queue := []\<rparr>"
  have al: "is_alive j ?s1 = is_alive j s0" for j by (simp add: is_alive_def)
  have "\<not> clear_enabled ?s1" by (simp add: clear_enabled_def)
  then have again: "clear later ?s1 = Some ?s1" by (rule clear_disabled)
  have handle: "\<forall>i. process s = Some i \<longrightarrow> \<not> is_alive i ?s1"
    using s0(2) by (auto simp: al)
  have reach: "(\<forall>j. \<not> is_alive j ?s1) \<and> live_count ?s1 = 0 \<and> (\<forall>ts. ticks ts ?s1 = ?s1)"
    if "\<exists>evs. run evs (initialize_session_state None) = Some s"
  proof -
    from that obtain evs where "run evs (initialize_session_state None) = Some s" by blast
    with handle_inv_run[OF handle_inv_init, of evs] have "handle_inv s" by auto
    then have "\<forall>j. is_alive j s \<longrightarrow> process s = Some j" by (simp add: handle_inv_def)
    with s0(2) have none: "\<forall>j. \<not> is_alive j ?s1" by (auto simp: al)
    then have "filter proc_alive (procs ?s1) = []" by (rule no_live_procs)
    then have "live_count ?s1 = 0" by (simp add: live_count_def)
    moreover have "\<forall>ts. ticks ts ?s1 = ?s1"
      using none by (simp add: ticks_no_live_procs)
    ultimately show ?thesis using none by blast
  qed
  show ?thesis
  proof (intro exI[of _ ?s1] conjI)
    show "clear now s = Some ?s1" by (rule s0(1))
    show "clear later ?s1 = Some ?s1" by (rule again)
    show "\<forall>i. process s = Some i \<longrightarrow> \<not> is_alive i ?s1" by (rule handle)
    show "(\<exists>evs. run evs (initialize_session_state None) = Some s) \<longrightarrow>
        (\<forall>j. \<not> is_alive j ?s1) \<and> live_count ?s1 = 0 \<and> (\<forall>ts. ticks ts ?s1 = ?s1)"
      using reach by blast
  qed simp_all
qed

theorem clear_resets_witness:
  "clear_enabled demo_running \<and>
   run [Script (ClickStart (Some 100)) [], Tick 0 demo_clock, Tick 0 demo_clock,
        Tick 0 demo_clock, Tick 0 demo_clock] (initialize_session_state None) =
     Some demo_running \<and>
   process demo_running = Some 0 \<and> is_alive 0 demo_running \<and>
   (\<exists>s1. clear demo_clock demo_running = Some s1 \<and> local_data s1 = [] \<and> counter s1 = 0 \<and>
      \<not> running s1 \<and> data_queue s1 = [] \<and> process s1 = None \<and>
      clear demo_clock s1 = Some s1 \<and> \<not> is_alive 0 s1 \<and> live_count s1 = 0 \<and>
      ticks [(0, demo_clock), (0, demo_clock)] s1 = s1)"
proof -
  have h: "clear_enabled demo_running"
    by (simp add: clear_enabled_def demo_running_def)
  have p: "process demo_running = Some 0" "is_alive 0 demo_running"
    by (simp_all add: demo_running_def is_alive_def proc_alive_def)
  note r = demo_running_reachable
  from clear_resets[OF h, of demo_clock demo_clock] obtain s1 where
    s1: "clear demo_clock demo_running = Some s1" "local_data s1 = []" "counter s1 = 0"
      "\<not> running s1" "data_queue s1 = []" "process s1 = None"
      "clear demo_clock s1 = Some s1"
      "\<forall>i. process demo_running = Some i \<longrightarrow> \<not> is_alive i s1"
      "(\<exists>evs. run evs (initialize_session_state None) = Some demo_running) \<longrightarrow>
         (\<forall>j. \<not> is_alive j s1) \<and> live_count s1 = 0 \<and> (\<forall>ts. ticks ts s1 = s1)"
    by blast
  from s1(9) r have "live_count s1 = 0" "ticks [(0, demo_clock), (0, demo_clock)] s1 = s1"
    by blast+
  moreover from s1(8) p have "\<not> is_alive 0 s1" by blast
  ultimately show ?thesis using h p r s1(1-7) by (intro conjI exI[of _ s1])
qed

text \<open>
  Claim C3, as the code has it. While the pause event stays set and the stop event clear,
  a live worker stays alive and, over any number of its steps, pushes at most one sample
  and increments the counter at most once. It does so only when it had already passed its
  pause test: from every other point of the loop, the sleep after an emission included,
  no number of steps changes the counter or the queue; a worker about to push does not
  touch the counter. From the head of the loop the paused worker is back at the head,
  in the same state, after three steps: stop test, pause test, a sleep of 100 ms. With
  both events clear a live worker pushes its next sample within five steps, at most one
  of them a sleep, and unless it was already about to push, that sample carries the
  counter's next value.
\<close>

theorem paused_worker:
  "(pause_event s \<and> \<not> stop_event s \<and> is_alive i s \<longrightarrow>
      (\<forall>n. is_alive i (generate_data_steps n now i s)) \<and>
      (\<forall>n. \<exists>new. data_queue (generate_data_steps n now i s) = data_queue s @ new \<and>
             length new \<le> 1 \<and>
             (counter (generate_data_steps n now i s) = counter s \<or>
              counter (generate_data_steps n now i s) = counter s + 1)) \<and>
      (wpc (procs s ! i) \<noteq> AtIncrement \<and> (\<forall>st. wpc (procs s ! i) \<noteq> AtPut st) \<longrightarrow>
         (\<forall>n. counter (generate_data_steps n now i s) = counter s \<and>
              data_queue (generate_data_steps n now i s) = data_queue s)) \<and>
      ((\<exists>st. wpc (procs s ! i) = AtPut st) \<longrightarrow>
         (\<forall>n. counter (generate_data_steps n now i s) = counter s)) \<and>
      (wpc (procs s ! i) = AtWhile \<longrightarrow>
         generate_data_steps 3 now i s = s \<and> slept_ms 3 now i s = [100])) \<and>
   (\<not> pause_event s \<and> \<not> stop_event s \<and> is_alive i s \<longrightarrow>
      (\<exists>n \<le> 5. \<exists>x.
         data_queue (generate_data_steps n now i s) = data_queue s @ [x] \<and>
         timestamp x = PyStr (isoformat now) \<and> pid x = ospid (procs s ! i) \<and>
         ((\<forall>st. wpc (procs s ! i) \<noteq> AtPut st) \<longrightarrow>
            step x = sint (counter s + 1) \<and>
            counter (generate_data_steps n now i s) = counter s + 1) \<and>
         length (slept_ms n now i s) \<le> 1))"
proof (intro conjI impI allI)
  assume a: "pause_event s \<and> \<not> stop_event s \<and> is_alive i s"
  then have i: "i < length (procs s)" by (simp add: is_alive_def)
  show "is_alive i (generate_data_steps n now i s)" for n
    using a by (simp add: steps_stay_alive)
  show "\<exists>new. data_queue (generate_data_steps n now i s) = data_queue s @ new \<and>
             length new \<le> 1 \<and>
             (counter (generate_data_steps n now i s) = counter s \<or>
              counter (generate_data_steps n now i s) = counter s + 1)" for n
  proof -
    consider (quiet) "wpc (procs s ! i) \<noteq> AtIncrement" "\<forall>st. wpc (procs s ! i) \<noteq> AtPut st"
      | (incr) "wpc (procs s ! i) = AtIncrement"
      | (put) st where "wpc (procs s ! i) = AtPut st" by blast
    then show ?thesis
    proof cases
      case quiet
      with a paused_quiet[of s i n now] show ?thesis by simp
    next
      case incr
      with a i paused_incr[of s i n now] show ?thesis by auto
    next
      case put
      with a i paused_put[of s i st n now] show ?thesis by auto
    qed
  qed
  show "counter (generate_data_steps n now i s) = counter s"
    if "wpc (procs s ! i) \<noteq> AtIncrement \<and> (\<forall>st. wpc (procs s ! i) \<noteq> AtPut st)" for n
    using a that paused_quiet[of s i n now] by simp
  show "data_queue (generate_data_steps n now i s) = data_queue s"
    if "wpc (procs s ! i) \<noteq> AtIncrement \<and> (\<forall>st. wpc (procs s ! i) \<noteq> AtPut st)" for n
    using a that paused_quiet[of s i n now] by simp
  show "counter (generate_data_steps n now i s) = counter s"
    if "\<exists>st. wpc (procs s ! i) = AtPut st" for n
  proof -
    from that obtain st where "wpc (procs s ! i) = AtPut st" by blast
    with a i paused_put[of s i st n now] show ?thesis by simp
  qed
  show "generate_data_steps 3 now i s = s" if "wpc (procs s ! i) = AtWhile"
    using a i that by (simp add: paused_cycle)
  show "slept_ms 3 now i s = [100]" if "wpc (procs s ! i) = AtWhile"
    using a i that by (simp add: paused_cycle)
next
  assume "\<not> pause_event s \<and> \<not> stop_event s \<and> is_alive i s"
  then show "\<exists>n \<le> 5. \<exists>x.
         data_queue (generate_data_steps n now i s) = data_queue s @ [x] \<and>
         timestamp x = PyStr (isoformat now) \<and> pid x = ospid (procs s ! i) \<and>
         ((\<forall>st. wpc (procs s ! i) \<noteq> AtPut st) \<longrightarrow>
            step x = sint (counter s + 1) \<and>
            counter (generate_data_steps n now i s) = counter s + 1) \<and>
         length (slept_ms n now i s) \<le> 1"
    by (intro resume_steps) simp_all
qed

theorem paused_worker_witness:
  "pause_event demo_paused \<and> \<not> stop_event demo_paused \<and> is_alive 0 demo_paused \<and>
   wpc (procs demo_paused ! 0) = AtIf \<and>
   is_alive 0 (generate_data_steps 7 demo_clock 0 demo_paused) \<and>
   counter (generate_data_steps 7 demo_clock 0 demo_paused) = counter demo_paused \<and>
   data_queue (generate_data_steps 7 demo_clock 0 demo_paused) = data_queue demo_paused \<and>
   \<not> pause_event demo_running \<and> \<not> stop_event demo_running \<and> is_alive 0 demo_running \<and>
   (\<exists>n \<le> 5. \<exists>x.
      data_queue (generate_data_steps n demo_clock 0 demo_running) =
        data_queue demo_running @ [x] \<and> step x = 2)"
proof -
  have h: "pause_event demo_paused \<and> \<not> stop_event demo_paused \<and> is_alive 0 demo_paused"
    "wpc (procs demo_paused ! 0) = AtIf"
    by (simp_all add: demo_paused_def is_alive_def proc_alive_def)
  have g: "\<not> pause_event demo_running \<and> \<not> stop_event demo_running \<and>
      is_alive 0 demo_running"
    "\<forall>st. wpc (procs demo_running ! 0) \<noteq> AtPut st" "sint (counter demo_running + 1) = 2"
    by (simp_all add: demo_running_def is_alive_def proc_alive_def)
  from paused_worker[of demo_paused 0 demo_clock] h have
    "is_alive 0 (generate_data_steps 7 demo_clock 0 demo_paused) \<and>
     counter (generate_data_steps 7 demo_clock 0 demo_paused) = counter demo_paused \<and>
     data_queue (generate_data_steps 7 demo_clock 0 demo_paused) = data_queue demo_paused"
    by simp
  moreover from paused_worker[of demo_running 0 demo_clock] g have
    "\<exists>n \<le> 5. \<exists>x.
      data_queue (generate_data_steps n demo_clock 0 demo_running) =
        data_queue demo_running @ [x] \<and> step x = 2"
    by auto
  ultimately show ?thesis using h g(1) by simp
qed

text \<open>
  Claim C3 as stated fails: the worker tests the pause event once per iteration, so when
  the Pause click lands after that test the worker still increments the counter and
  pushes its sample while the pause event is set.
\<close>

theorem pause_race_counterexample:
  "run [Script (ClickStart (Some 100)) [], Tick 0 demo_clock, Tick 0 demo_clock,
        Script ClickPause []] (initialize_session_state None) = Some demo_pause_race \<and>
   pause_event demo_pause_race \<and> counter demo_pause_race = 0 \<and>
   counter (generate_data_step demo_clock 0 demo_pause_race) = 1 \<and>
   pause_event (generate_data_steps 2 demo_clock 0 demo_pause_race) \<and>
   data_queue demo_pause_race = [] \<and>
   data_queue (generate_data_steps 2 demo_clock 0 demo_pause_race) =
     [\<lparr>timestamp = PyStr ''2024-01-02T03:04:05.000678'', step = 1, pid = 100\<rparr>]"
proof (intro conjI)
  show "run [Script (ClickStart (Some 100)) [], Tick 0 demo_clock, Tick 0 demo_clock,
        Script ClickPause []] (initialize_session_state None) = Some demo_pause_race"
    by (simp add: exec_def main_def start_def initialize_session_state_def Let_def
        drain_into_buffer_def drain_loop_Nil_empty generate_data_step_def set_pc_def
        is_alive_def demo_pause_race_def pause_toggle_def)
qed (simp_all add: demo_pause_race_def numeral_2_eq_2 generate_data_step_def Let_def
    set_pc_def iso_demo)

end
